theory Spec2Isabelle
  imports Main
begin

section \<open>Maze search (Lecture 1 practice project, maze.py)\<close>

text \<open>
  A shallow embedding of \<^verbatim>\<open>maze.py\<close>: the search nodes, the two frontier classes, the
  construction of a \<^verbatim>\<open>Maze\<close> from the text of a file, \<^verbatim>\<open>Maze.neighbors\<close> and
  \<^verbatim>\<open>Maze.solve\<close>. Python integers are \<open>int\<close>, a Python \<^verbatim>\<open>str\<close> is the list of its
  code points, an exception is a value of type \<open>error\<close>, and the attributes that
  \<^verbatim>\<open>solve\<close> writes on the maze object are fields of the record that \<open>solve\<close> returns.
\<close>

subsection \<open>Exceptions\<close>

text \<open>
  The program raises \<^verbatim>\<open>Exception(msg)\<close> with four different messages. The interpreter
  raises \<^verbatim>\<open>AttributeError\<close> when an attribute that was never assigned is read.
\<close>

datatype error = Exception string | AttributeError

abbreviation EmptyFrontier :: error where
  "EmptyFrontier \<equiv> Exception ''empty frontier''"

abbreviation NoSolution :: error where
  "NoSolution \<equiv> Exception ''no solution''"

abbreviation MalformedStart :: error where
  "MalformedStart \<equiv> Exception ''maze must have exactly one start point''"

abbreviation MalformedGoal :: error where
  "MalformedGoal \<equiv> Exception ''maze must have exactly one goal''"

definition MalformedGrid :: "error \<Rightarrow> bool" where
  "MalformedGrid e = (e = MalformedStart \<or> e = MalformedGoal)"

subsection \<open>Nodes\<close>

type_synonym cell = "int \<times> int"

text \<open>\<^verbatim>\<open>class Node\<close>: \<^verbatim>\<open>parent\<close> and \<^verbatim>\<open>action\<close> are \<^verbatim>\<open>None\<close> for the root.\<close>

datatype node = Node (state: cell) (parent: "node option") (action: "string option")

subsection \<open>Frontiers\<close>

text \<open>
  \<^verbatim>\<open>QueueFrontier\<close> inherits \<^verbatim>\<open>__init__\<close>, \<^verbatim>\<open>add\<close>, \<^verbatim>\<open>contains_state\<close> and \<^verbatim>\<open>empty\<close> from
  \<^verbatim>\<open>StackFrontier\<close> and overrides \<^verbatim>\<open>remove\<close>. The constructor of the datatype is the
  class of the object; \<open>nodes\<close> is its attribute \<^verbatim>\<open>self.frontier\<close>.
\<close>

datatype frontier = StackFrontier (nodes: "node list") | QueueFrontier (nodes: "node list")

fun frontier_add :: "frontier \<Rightarrow> node \<Rightarrow> frontier" where
  "frontier_add (StackFrontier ns) n = StackFrontier (ns @ [n])"
| "frontier_add (QueueFrontier ns) n = QueueFrontier (ns @ [n])"

definition contains_state :: "frontier \<Rightarrow> cell \<Rightarrow> bool" where
  "contains_state fr s = list_ex (\<lambda>n. state n = s) (nodes fr)"

definition frontier_empty :: "frontier \<Rightarrow> bool" where
  "frontier_empty fr = (length (nodes fr) = 0)"

text \<open>\<^verbatim>\<open>StackFrontier.remove\<close>: \<^verbatim>\<open>self.frontier.pop()\<close> takes the last element.\<close>

definition StackFrontier_remove :: "node list \<Rightarrow> error + node \<times> frontier" where
  "StackFrontier_remove ns =
     (if frontier_empty (StackFrontier ns) then Inl EmptyFrontier
      else Inr (last ns, StackFrontier (butlast ns)))"

text \<open>\<^verbatim>\<open>QueueFrontier.remove\<close>: \<^verbatim>\<open>self.frontier[0]\<close>, then \<^verbatim>\<open>self.frontier[1:]\<close>.\<close>

definition QueueFrontier_remove :: "node list \<Rightarrow> error + node \<times> frontier" where
  "QueueFrontier_remove ns =
     (if frontier_empty (QueueFrontier ns) then Inl EmptyFrontier
      else Inr (ns ! 0, QueueFrontier (drop 1 ns)))"

text \<open>The call \<^verbatim>\<open>frontier.remove()\<close> dispatches on the class of the object.\<close>

fun frontier_remove :: "frontier \<Rightarrow> error + node \<times> frontier" where
  "frontier_remove (StackFrontier ns) = StackFrontier_remove ns"
| "frontier_remove (QueueFrontier ns) = QueueFrontier_remove ns"

subsection \<open>The maze object\<close>

text \<open>
  \<^verbatim>\<open>start\<close> and \<^verbatim>\<open>goal\<close> are assigned only when the scan of the grid meets the marker, so
  they are optional. \<^verbatim>\<open>num_explored\<close> and \<^verbatim>\<open>explored\<close> do not exist before the first
  \<^verbatim>\<open>solve\<close>, which assigns them before it reads them; the record holds \<open>0\<close> and \<open>{}\<close> until
  then. A solution is the pair \<^verbatim>\<open>(actions, cells)\<close>.
\<close>

type_synonym solution = "string option list \<times> cell list"

record maze =
  height :: int
  width :: int
  walls :: "bool list list"
  start :: "cell option"
  goal :: "cell option"
  solution :: "solution option"
  num_explored :: nat
  explored :: "cell set"

subsection \<open>Construction from the text of the file\<close>

text \<open>
  A Python string is the list of its code points. \<^verbatim>\<open>str.splitlines\<close> is the interpreter's:
  it breaks at \<^verbatim>\<open>\n\<close>, \<^verbatim>\<open>\r\<close>, \<^verbatim>\<open>\r\n\<close>, \<^verbatim>\<open>\v\<close>, \<^verbatim>\<open>\f\<close>, \<^verbatim>\<open>\x1c\<close>, \<^verbatim>\<open>\x1d\<close>, \<^verbatim>\<open>\x1e\<close>,
  \<^verbatim>\<open>\x85\<close>, U+2028 and U+2029, drops the line breaks, and yields no empty last
  line after a final line break.
\<close>

type_synonym pystr = "nat list"

abbreviation chr_A :: nat where "chr_A \<equiv> 65"
abbreviation chr_B :: nat where "chr_B \<equiv> 66"
abbreviation chr_space :: nat where "chr_space \<equiv> 32"

definition line_boundary :: "nat \<Rightarrow> bool" where
  "line_boundary c = (c \<in> {10, 11, 12, 13, 28, 29, 30, 133, 8232, 8233})"

fun splitlines_from :: "pystr \<Rightarrow> pystr \<Rightarrow> pystr list" where
  "splitlines_from cur [] = (if cur = [] then [] else [cur])"
| "splitlines_from cur (c # cs) =
     (if c = 13 \<and> cs \<noteq> [] \<and> hd cs = 10 then cur # splitlines_from [] (tl cs)
      else if line_boundary c then cur # splitlines_from [] cs
      else splitlines_from (cur @ [c]) cs)"

definition splitlines :: "pystr \<Rightarrow> pystr list" where
  "splitlines s = splitlines_from [] s"

text \<open>
  One pass of the inner loop body, for row \<open>i\<close> and column \<open>j\<close>. The state is the row built
  so far with \<^verbatim>\<open>self.start\<close> and \<^verbatim>\<open>self.goal\<close>. Reading \<^verbatim>\<open>contents[i][j]\<close> beyond the end
  of the line raises \<^verbatim>\<open>IndexError\<close>, which the handler turns into an open cell.
\<close>

definition scan_cell ::
  "pystr \<Rightarrow> nat \<Rightarrow> nat \<Rightarrow> bool list \<times> cell option \<times> cell option
     \<Rightarrow> bool list \<times> cell option \<times> cell option" where
  "scan_cell line i j = (\<lambda>(row, st, gl).
     if j < length line then
       (if line ! j = chr_A then (row @ [False], Some (int i, int j), gl)
        else if line ! j = chr_B then (row @ [False], st, Some (int i, int j))
        else if line ! j = chr_space then (row @ [False], st, gl)
        else (row @ [True], st, gl))
     else (row @ [False], st, gl))"

text \<open>The outer loop body: build row \<open>i\<close> and append it to \<^verbatim>\<open>self.walls\<close>.\<close>

definition scan_row ::
  "pystr list \<Rightarrow> nat \<Rightarrow> nat \<Rightarrow> bool list list \<times> cell option \<times> cell option
     \<Rightarrow> bool list list \<times> cell option \<times> cell option" where
  "scan_row contents w i = (\<lambda>(ws, st, gl).
     case fold (scan_cell (contents ! i) i) [0..<w] ([], st, gl) of
       (row, st', gl') \<Rightarrow> (ws @ [row], st', gl'))"

text \<open>
  \<^verbatim>\<open>Maze.__init__\<close>, from the contents of the file. \<^verbatim>\<open>contents[0]\<close> raises
  \<^verbatim>\<open>IndexError\<close> on an empty list of lines, outside any handler.
\<close>

datatype init_error = Raised error | IndexError

definition Maze_init :: "pystr \<Rightarrow> init_error + maze" where
  "Maze_init contents =
     (if count_list contents chr_A \<noteq> 1 then Inl (Raised MalformedStart)
      else if count_list contents chr_B \<noteq> 1 then Inl (Raised MalformedGoal)
      else
        let lines = splitlines contents;
            h = length lines
        in if lines = [] then Inl IndexError
           else
             let w = length (lines ! 0)
             in case fold (scan_row lines w) [0..<h] ([], None, None) of
                  (ws, st, gl) \<Rightarrow>
                    Inr \<lparr>height = int h, width = int w, walls = ws, start = st, goal = gl,
                         solution = None, num_explored = 0, explored = {}\<rparr>)"

subsection \<open>Neighbours\<close>

text \<open>
  \<^verbatim>\<open>Maze.neighbors\<close>: the loop over the four candidates appends to \<^verbatim>\<open>result\<close>.
  \<^verbatim>\<open>self.walls[r][c]\<close> is read only after the bounds test, so the indices are not negative.
\<close>

definition keep_candidate ::
  "maze \<Rightarrow> string \<times> cell \<Rightarrow> (string \<times> cell) list \<Rightarrow> (string \<times> cell) list" where
  "keep_candidate m = (\<lambda>(action, (r, c)) result.
     if 0 \<le> r \<and> r < height m \<and> 0 \<le> c \<and> c < width m \<and> \<not> walls m ! nat r ! nat c
     then result @ [(action, (r, c))] else result)"

definition neighbors :: "maze \<Rightarrow> cell \<Rightarrow> (string \<times> cell) list" where
  "neighbors m s = (case s of (row, col) \<Rightarrow>
     let candidates = [(''up'', (row - 1, col)), (''down'', (row + 1, col)),
                       (''left'', (row, col - 1)), (''right'', (row, col + 1))]
     in fold (keep_candidate m) candidates [])"

text \<open>
  The class invariant that makes every read \<^verbatim>\<open>self.walls[r][c]\<close> of \<open>neighbors\<close> an
  in-range read: the table has \<open>height\<close> rows of \<open>width\<close> entries.
\<close>

definition maze_shape :: "maze \<Rightarrow> bool" where
  "maze_shape m =
     (int (length (walls m)) = height m \<and> list_all (\<lambda>row. int (length row) = width m) (walls m))"

subsection \<open>The search\<close>

text \<open>
  The inner loop of \<^verbatim>\<open>solve\<close> that walks the parent chain from the goal node and
  collects actions and cells until the node without parent.
\<close>

fun trace_back :: "node \<Rightarrow> string option list \<Rightarrow> cell list \<Rightarrow> string option list \<times> cell list" where
  "trace_back (Node s None a) actions cells = (actions, cells)"
| "trace_back (Node s (Some p) a) actions cells = trace_back p (actions @ [a]) (cells @ [s])"

text \<open>
  The body of the loop over \<^verbatim>\<open>self.neighbors(node.state)\<close>: a child is added unless its
  state is in the frontier or in \<^verbatim>\<open>self.explored\<close>.
\<close>

definition add_child :: "maze \<Rightarrow> node \<Rightarrow> string \<times> cell \<Rightarrow> frontier \<Rightarrow> frontier" where
  "add_child m node = (\<lambda>(action, st) fr.
     if \<not> contains_state fr st \<and> st \<notin> explored m
     then frontier_add fr (Node st (Some node) (Some action)) else fr)"

text \<open>
  One pass through the body of \<^verbatim>\<open>while True\<close>, from the frontier (a local variable) and the
  maze object: \<open>Inl\<close> when the pass leaves the loop, by \<^verbatim>\<open>raise\<close> (with the exception) or by
  \<^verbatim>\<open>return\<close> (with \<open>None\<close>), and \<open>Inr\<close> with the next frontier and maze otherwise.
  \<^verbatim>\<open>self.goal\<close> is read after the counter is incremented.
\<close>

definition iteration :: "frontier \<Rightarrow> maze \<Rightarrow> (error option \<times> maze) + (frontier \<times> maze)" where
  "iteration fr m =
     (if frontier_empty fr then Inl (Some NoSolution, m)
      else case frontier_remove fr of
        Inl e \<Rightarrow> Inl (Some e, m)
      | Inr (node, fr1) \<Rightarrow>
          let m1 = m\<lparr>num_explored := num_explored m + 1\<rparr>
          in (case goal m1 of
               None \<Rightarrow> Inl (Some AttributeError, m1)
             | Some g \<Rightarrow>
                 if state node = g then
                   (case trace_back node [] [] of
                      (actions, cells) \<Rightarrow>
                        Inl (None, m1\<lparr>solution := Some (rev actions, rev cells)\<rparr>))
                 else
                   let m2 = m1\<lparr>explored := insert (state node) (explored m1)\<rparr>
                   in Inr (fold (add_child m2 node) (neighbors m2 (state node)) fr1, m2)))"

text \<open>
  Termination of the loop: the cells of the grid that are neither explored nor in the
  frontier, counted twice, plus the length of the frontier, decrease with every pass.
\<close>

definition cells_of :: "maze \<Rightarrow> cell set" where
  "cells_of m = {0..<height m} \<times> {0..<width m}"

definition states :: "frontier \<Rightarrow> cell set" where
  "states fr = state ` set (nodes fr)"

definition pending :: "frontier \<Rightarrow> maze \<Rightarrow> nat" where
  "pending fr m = 2 * card (cells_of m - explored m - states fr) + length (nodes fr)"

text \<open>The two tests of \<open>neighbors\<close> on a destination.\<close>

definition in_bounds :: "maze \<Rightarrow> cell \<Rightarrow> bool" where
  "in_bounds m d = (0 \<le> fst d \<and> fst d < height m \<and> 0 \<le> snd d \<and> snd d < width m)"

definition is_wall :: "maze \<Rightarrow> cell \<Rightarrow> bool" where
  "is_wall m d = walls m ! nat (fst d) ! nat (snd d)"

lemma keep_candidate_eq:
  "keep_candidate m x result =
     (if in_bounds m (snd x) \<and> \<not> is_wall m (snd x) then result @ [x] else result)"
  by (cases x) (auto simp: keep_candidate_def in_bounds_def is_wall_def)

lemma fold_keep_candidate:
  "fold (keep_candidate m) cands acc =
     acc @ filter (\<lambda>x. in_bounds m (snd x) \<and> \<not> is_wall m (snd x)) cands"
  by (induction cands arbitrary: acc) (simp_all add: keep_candidate_eq)

lemma neighbors_filter:
  "neighbors m (row, col) =
     filter (\<lambda>x. in_bounds m (snd x) \<and> \<not> is_wall m (snd x))
       [(''up'', (row - 1, col)), (''down'', (row + 1, col)),
        (''left'', (row, col - 1)), (''right'', (row, col + 1))]"
  by (simp only: neighbors_def prod.case Let_def fold_keep_candidate append_Nil)

lemma neighbors_iff:
  "(a, d) \<in> set (neighbors m (row, col)) \<longleftrightarrow>
     (a, d) \<in> {(''up'', (row - 1, col)), (''down'', (row + 1, col)),
                (''left'', (row, col - 1)), (''right'', (row, col + 1))}
     \<and> in_bounds m d \<and> \<not> is_wall m d"
  unfolding neighbors_filter set_filter by auto

lemma neighbors_in_cells: "(a, d) \<in> set (neighbors m s) \<Longrightarrow> d \<in> cells_of m"
  by (cases s) (auto simp: neighbors_iff cells_of_def in_bounds_def)

lemma finite_cells_of: "finite (cells_of m)"
  by (simp add: cells_of_def)

lemma states_add: "states (frontier_add fr n) = insert (state n) (states fr)"
  by (cases fr) (auto simp: states_def)

lemma nodes_add: "nodes (frontier_add fr n) = nodes fr @ [n]"
  by (cases fr) auto

lemma contains_state_iff: "contains_state fr s \<longleftrightarrow> s \<in> states fr"
  by (auto simp: contains_state_def states_def list_ex_iff)

lemma pending_add_child:
  assumes "snd nb \<in> cells_of m"
  shows "pending (add_child m node nb fr) m \<le> pending fr m"
proof -
  obtain a st where Pair: "nb = (a, st)" by (cases nb)
  show ?thesis
  proof (cases "\<not> contains_state fr st \<and> st \<notin> explored m")
    case True
    let ?A = "cells_of m - explored m - states fr"
    have fin: "finite ?A" using finite_cells_of by simp
    have mem: "st \<in> ?A" using True assms Pair by (simp add: contains_state_iff)
    have "cells_of m - explored m - insert st (states fr) = ?A - {st}" by auto
    moreover have "card (?A - {st}) = card ?A - 1" using fin mem by simp
    moreover have "card ?A > 0" using fin mem by (auto simp: card_gt_0_iff)
    ultimately show ?thesis using True Pair
      by (simp add: add_child_def pending_def states_add nodes_add)
  next
    case False
    then show ?thesis using Pair by (auto simp: add_child_def)
  qed
qed

lemma pending_fold_add_child:
  "\<forall>nb \<in> set nbs. snd nb \<in> cells_of m \<Longrightarrow>
     pending (fold (add_child m node) nbs fr) m \<le> pending fr m"
proof (induction nbs arbitrary: fr)
  case Nil
  then show ?case by simp
next
  case (Cons nb nbs)
  have "pending (fold (add_child m node) nbs (add_child m node nb fr)) m
          \<le> pending (add_child m node nb fr) m"
    using Cons by simp
  also have "\<dots> \<le> pending fr m" using Cons.prems by (simp add: pending_add_child)
  finally show ?case by simp
qed

lemma set_last_butlast: "ns \<noteq> [] \<Longrightarrow> set ns = insert (last ns) (set (butlast ns))"
  by (induction ns) auto

lemma set_first_rest: "ns \<noteq> [] \<Longrightarrow> set ns = insert (ns ! 0) (set (drop 1 ns))"
  by (cases ns) auto

lemma frontier_remove_Inr:
  assumes "frontier_remove fr = Inr (node, fr1)"
  shows "set (nodes fr) = insert node (set (nodes fr1))"
    and "length (nodes fr) = Suc (length (nodes fr1))"
proof -
  have "set (nodes fr) = insert node (set (nodes fr1)) \<and> length (nodes fr) = Suc (length (nodes fr1))"
  proof (cases fr)
    case (StackFrontier ns)
    with assms have ne: "ns \<noteq> []" and n: "node = last ns" and r: "fr1 = StackFrontier (butlast ns)"
      by (auto simp: StackFrontier_remove_def frontier_empty_def split: if_splits)
    show ?thesis
      unfolding StackFrontier n r using ne set_last_butlast[OF ne] by simp
  next
    case (QueueFrontier ns)
    with assms have ne: "ns \<noteq> []" and n: "node = ns ! 0" and r: "fr1 = QueueFrontier (drop 1 ns)"
      by (auto simp: QueueFrontier_remove_def frontier_empty_def split: if_splits)
    show ?thesis
      unfolding QueueFrontier n r using ne set_first_rest[OF ne] by simp
  qed
  then show "set (nodes fr) = insert node (set (nodes fr1))"
    and "length (nodes fr) = Suc (length (nodes fr1))" by simp_all
qed

lemma iteration_pending:
  assumes "iteration fr m = Inr (fr', m')"
  shows "pending fr' m' < pending fr m"
proof -
  from assms obtain node fr1 g where
    rm: "frontier_remove fr = Inr (node, fr1)" and g: "goal m = Some g" and
    m': "m' = m\<lparr>num_explored := num_explored m + 1, explored := insert (state node) (explored m)\<rparr>" and
    fr': "fr' = fold (add_child m' node) (neighbors m' (state node)) fr1"
    by (auto simp: iteration_def Let_def split: if_splits sum.splits option.splits prod.splits)
  have "pending fr' m' \<le> pending fr1 m'"
    unfolding fr' by (rule pending_fold_add_child) (auto dest: neighbors_in_cells)
  also have "pending fr1 m' < pending fr m"
  proof -
    have "cells_of m' - explored m' - states fr1 \<subseteq> cells_of m - explored m - states fr"
      using frontier_remove_Inr(1)[OF rm] by (auto simp: m' states_def cells_of_def)
    then have "card (cells_of m' - explored m' - states fr1) \<le> card (cells_of m - explored m - states fr)"
      by (intro card_mono) (auto simp: finite_cells_of)
    then show ?thesis using frontier_remove_Inr(2)[OF rm] by (simp add: pending_def)
  qed
  finally show ?thesis .
qed

text \<open>The loop \<^verbatim>\<open>while True\<close> of \<^verbatim>\<open>solve\<close>.\<close>

function solve_loop :: "frontier \<Rightarrow> maze \<Rightarrow> error option \<times> maze" where
  "solve_loop fr m =
     (case iteration fr m of Inl r \<Rightarrow> r | Inr (fr', m') \<Rightarrow> solve_loop fr' m')"
  by pat_completeness auto
termination
  by (relation "measure (\<lambda>(fr, m). pending fr m)") (auto simp: iteration_pending)


text \<open>
  \<^verbatim>\<open>Maze.solve\<close>. The source constructs the frontier with \<^verbatim>\<open>StackFrontier()\<close>; everything
  after that line only calls the methods of the object. \<open>solve_from\<close> is the body of
  \<^verbatim>\<open>solve\<close> with the freshly constructed frontier object as an argument, and \<open>solve\<close>
  is the method as written. Reading \<^verbatim>\<open>self.start\<close> comes after the counter is reset and
  before \<^verbatim>\<open>self.explored\<close> is assigned.
\<close>

definition solve_from :: "frontier \<Rightarrow> maze \<Rightarrow> error option \<times> maze" where
  "solve_from fr0 m =
     (let m0 = m\<lparr>num_explored := 0\<rparr>
      in case start m0 of
           None \<Rightarrow> (Some AttributeError, m0)
         | Some s \<Rightarrow>
             solve_loop (frontier_add fr0 (Node s None None)) (m0\<lparr>explored := {}\<rparr>))"

definition solve :: "maze \<Rightarrow> error option \<times> maze" where
  "solve m = solve_from (StackFrontier []) m"

section \<open>Properties\<close>

subsection \<open>Neighbours\<close>

text \<open>
  Claim C5. In a maze whose table has \<open>height\<close> rows of \<open>width\<close> entries, for every cell,
  \<open>neighbors\<close> returns exactly those of the four cardinal moves whose destination has
  coordinates within \<open>[0, height) \<times> [0, width)\<close> and is not a wall, each with its action
  label, in the fixed order up, down, left, right.
\<close>

theorem neighbors_exact:
  "maze_shape m \<Longrightarrow> neighbors m (row, col) =
     filter (\<lambda>(a, d). in_bounds m d \<and> \<not> is_wall m d)
       [(''up'', (row - 1, col)), (''down'', (row + 1, col)),
        (''left'', (row, col - 1)), (''right'', (row, col + 1))]"
  unfolding neighbors_filter by (simp add: case_prod_unfold)

subsection \<open>Frontiers\<close>

text \<open>
  Claim C8. After \<open>n1\<close>, \<open>n2\<close>, \<open>n3\<close> are added to an empty queue frontier, successive
  removals yield \<open>n1\<close>, then \<open>n2\<close>, then \<open>n3\<close>. In general \<open>add\<close> appends at the end and
  \<open>remove\<close> on a queue frontier returns the first node, the earliest added, and leaves the
  other nodes in their order.
\<close>

theorem queue_fifo:
  "frontier_remove (frontier_add (frontier_add (frontier_add (QueueFrontier []) n1) n2) n3)
     = Inr (n1, frontier_add (frontier_add (QueueFrontier []) n2) n3)
   \<and> frontier_remove (frontier_add (frontier_add (QueueFrontier []) n2) n3)
     = Inr (n2, frontier_add (QueueFrontier []) n3)
   \<and> frontier_remove (frontier_add (QueueFrontier []) n3) = Inr (n3, QueueFrontier [])
   \<and> frontier_add (QueueFrontier ns) n = QueueFrontier (ns @ [n])
   \<and> frontier_remove (QueueFrontier (n # ns)) = Inr (n, QueueFrontier ns)"
  by (simp add: QueueFrontier_remove_def frontier_empty_def)

text \<open>
  Claim C9. \<open>remove\<close> on an empty frontier of either class raises the exception with the
  message \<^verbatim>\<open>empty frontier\<close>.
\<close>

theorem remove_empty:
  "frontier_empty fr \<Longrightarrow> frontier_remove fr = Inl EmptyFrontier"
  by (cases fr) (simp_all add: StackFrontier_remove_def QueueFrontier_remove_def)

theorem remove_empty_witness:
  "frontier_empty (StackFrontier []) \<and> frontier_remove (StackFrontier []) = Inl EmptyFrontier
   \<and> frontier_empty (QueueFrontier []) \<and> frontier_remove (QueueFrontier []) = Inl EmptyFrontier"
  using remove_empty [of "StackFrontier []"] remove_empty [of "QueueFrontier []"]
  by (simp add: frontier_empty_def)

subsection \<open>Construction\<close>

lemma splitlines_from_Nil: "splitlines_from cur s = [] \<longleftrightarrow> cur = [] \<and> s = []"
  by (induction cur s rule: splitlines_from.induct) auto

lemma count_list_pos_nonempty: "count_list s c = 1 \<Longrightarrow> s \<noteq> []"
  by auto

lemma Maze_init_ok:
  assumes "count_list contents chr_A = 1" "count_list contents chr_B = 1"
  shows "\<exists>m. Maze_init contents = Inr m"
proof -
  have "contents \<noteq> []" using assms(1) by auto
  then have "splitlines contents \<noteq> []" by (simp add: splitlines_def splitlines_from_Nil)
  then show ?thesis using assms
    by (simp add: Maze_init_def Let_def split: prod.split)
qed

text \<open>
  Claim C7. Construction raises one of the two malformed-grid exceptions, and so yields
  no maze, if and only if the text does not hold exactly one \<^verbatim>\<open>A\<close> or does not hold
  exactly one \<^verbatim>\<open>B\<close>; with exactly one of each, construction yields a maze.
\<close>

theorem Maze_init_malformed:
  "(count_list contents chr_A \<noteq> 1 \<or> count_list contents chr_B \<noteq> 1
      \<longrightarrow> (\<exists>e. Maze_init contents = Inl (Raised e) \<and> MalformedGrid e))
   \<and> (count_list contents chr_A = 1 \<and> count_list contents chr_B = 1
      \<longrightarrow> (\<exists>m. Maze_init contents = Inr m))"
proof (intro conjI impI)
  assume "count_list contents chr_A \<noteq> 1 \<or> count_list contents chr_B \<noteq> 1"
  then show "\<exists>e. Maze_init contents = Inl (Raised e) \<and> MalformedGrid e"
    by (auto simp: Maze_init_def MalformedGrid_def)
next
  assume "count_list contents chr_A = 1 \<and> count_list contents chr_B = 1"
  then show "\<exists>m. Maze_init contents = Inr m" using Maze_init_ok by blast
qed

theorem Maze_init_malformed_witness:
  "count_list [chr_A, chr_A, chr_B] chr_A = 2
   \<and> (\<exists>e. Maze_init [chr_A, chr_A, chr_B] = Inl (Raised e) \<and> MalformedGrid e)
   \<and> (count_list [chr_A, chr_space, chr_B] chr_A = 1 \<and> count_list [chr_A, chr_space, chr_B] chr_B = 1)
   \<and> (\<exists>m. Maze_init [chr_A, chr_space, chr_B] = Inr m)"
  using Maze_init_malformed [of "[chr_A, chr_A, chr_B]"] Maze_init_malformed [of "[chr_A, chr_space, chr_B]"]
  by simp

text \<open>The entry of the table for column \<open>j\<close> of a line of the text.\<close>

definition wall_char :: "pystr \<Rightarrow> nat \<Rightarrow> bool" where
  "wall_char line j =
     (j < length line \<and> line ! j \<noteq> chr_A \<and> line ! j \<noteq> chr_B \<and> line ! j \<noteq> chr_space)"

lemma fst_scan_cell: "fst (scan_cell line i j acc) = fst acc @ [wall_char line j]"
  by (cases acc) (simp add: scan_cell_def wall_char_def)

lemma fst_fold_scan_cell:
  "fst (fold (scan_cell line i) js acc) = fst acc @ map (wall_char line) js"
  by (induction js arbitrary: acc) (simp_all add: fst_scan_cell)

lemma fst_scan_row:
  "fst (scan_row contents w i acc) = fst acc @ [map (wall_char (contents ! i)) [0..<w]]"
proof -
  obtain ws st gl where acc: "acc = (ws, st, gl)" by (cases acc)
  obtain row st' gl' where f: "fold (scan_cell (contents ! i) i) [0..<w] ([], st, gl) = (row, st', gl')"
    by (cases "fold (scan_cell (contents ! i) i) [0..<w] ([], st, gl)")
  have "row = map (wall_char (contents ! i)) [0..<w]"
    using fst_fold_scan_cell[of "contents ! i" i "[0..<w]" "([], st, gl)"] f by simp
  then show ?thesis by (simp add: scan_row_def acc f)
qed

lemma fst_fold_scan_row:
  "fst (fold (scan_row contents w) is acc) =
     fst acc @ map (\<lambda>i. map (wall_char (contents ! i)) [0..<w]) is"
  by (induction "is" arbitrary: acc) (simp_all add: fst_scan_row)

lemma Maze_init_Inr:
  assumes "Maze_init contents = Inr m"
  shows "height m = int (length (splitlines contents))"
    and "width m = int (length (splitlines contents ! 0))"
    and "walls m = map (\<lambda>i. map (wall_char (splitlines contents ! i)) [0..<length (splitlines contents ! 0)])
                     [0..<length (splitlines contents)]"
proof -
  let ?ls = "splitlines contents"
  obtain ws st gl where f: "fold (scan_row ?ls (length (?ls ! 0))) [0..<length ?ls] ([], None, None) = (ws, st, gl)"
    by (cases "fold (scan_row ?ls (length (?ls ! 0))) [0..<length ?ls] ([], None, None)")
  have ws: "ws = map (\<lambda>i. map (wall_char (?ls ! i)) [0..<length (?ls ! 0)]) [0..<length ?ls]"
    using fst_fold_scan_row[of ?ls "length (?ls ! 0)" "[0..<length ?ls]" "([], None, None)"] f by simp
  have m: "m = \<lparr>height = int (length ?ls), width = int (length (?ls ! 0)), walls = ws, start = st, goal = gl,
                 solution = None, num_explored = 0, explored = {}\<rparr>"
    using assms f by (simp add: Maze_init_def Let_def split: if_splits)
  show "height m = int (length ?ls)" "width m = int (length (?ls ! 0))" by (simp_all add: m)
  show "walls m = map (\<lambda>i. map (wall_char (?ls ! i)) [0..<length (?ls ! 0)]) [0..<length ?ls]"
    by (simp add: m ws)
qed

lemma Maze_init_shape: "Maze_init contents = Inr m \<Longrightarrow> maze_shape m"
  by (simp add: maze_shape_def Maze_init_Inr list_all_iff)

text \<open>
  What construction guarantees about the markers: \<^verbatim>\<open>self.start\<close> and \<^verbatim>\<open>self.goal\<close>, when
  they are assigned, are the positions of an \<^verbatim>\<open>A\<close> and of a \<^verbatim>\<open>B\<close> of the text within the
  grid, hence two different cells within bounds that are not walls.
\<close>

definition marked :: "pystr list \<Rightarrow> nat \<Rightarrow> nat \<Rightarrow> cell option \<Rightarrow> bool" where
  "marked lines w ch p =
     (case p of
        None \<Rightarrow> True
      | Some d \<Rightarrow> 0 \<le> fst d \<and> 0 \<le> snd d \<and> nat (fst d) < length lines \<and> nat (snd d) < w
                  \<and> nat (snd d) < length (lines ! nat (fst d))
                  \<and> lines ! nat (fst d) ! nat (snd d) = ch)"

definition marks_ok :: "pystr list \<Rightarrow> nat \<Rightarrow> 'a \<times> cell option \<times> cell option \<Rightarrow> bool" where
  "marks_ok lines w acc = (marked lines w chr_A (fst (snd acc)) \<and> marked lines w chr_B (snd (snd acc)))"

lemma fold_invariant:
  "P a \<Longrightarrow> (\<And>x a. x \<in> set xs \<Longrightarrow> P a \<Longrightarrow> P (f x a)) \<Longrightarrow> P (fold f xs a)"
  by (induction xs arbitrary: a) simp_all

lemma marks_ok_scan_cell:
  assumes "i < length lines" "j < w" "marks_ok lines w acc"
  shows "marks_ok lines w (scan_cell (lines ! i) i j acc)"
proof -
  obtain row st gl where acc: "acc = (row, st, gl)" by (cases acc)
  show ?thesis using assms
    by (simp add: acc scan_cell_def marks_ok_def marked_def)
qed

lemma marks_ok_scan_row:
  assumes "i < length lines" "marks_ok lines w acc"
  shows "marks_ok lines w (scan_row lines w i acc)"
proof -
  obtain ws st gl where acc: "acc = (ws, st, gl)" by (cases acc)
  let ?r = "fold (scan_cell (lines ! i) i) [0..<w] ([], st, gl)"
  have "marks_ok lines w ([] :: bool list, st, gl)"
    using assms(2) by (simp add: acc marks_ok_def)
  then have "marks_ok lines w ?r"
    by (rule fold_invariant) (simp add: marks_ok_scan_cell assms(1))
  then show ?thesis
    by (cases ?r) (simp add: scan_row_def acc marks_ok_def)
qed

lemma Maze_init_marks:
  assumes "Maze_init contents = Inr m"
  shows "marked (splitlines contents) (length (splitlines contents ! 0)) chr_A (start m)"
    and "marked (splitlines contents) (length (splitlines contents ! 0)) chr_B (goal m)"
proof -
  let ?ls = "splitlines contents"
  let ?w = "length (?ls ! 0)"
  let ?r = "fold (scan_row ?ls ?w) [0..<length ?ls] ([], None, None)"
  have "marks_ok ?ls ?w ([] :: bool list list, None, None)"
    by (simp add: marks_ok_def marked_def)
  then have ok: "marks_ok ?ls ?w ?r"
    by (rule fold_invariant) (simp add: marks_ok_scan_row)
  obtain ws st gl where r: "?r = (ws, st, gl)" by (cases ?r)
  have "start m = st" "goal m = gl"
    using assms r by (auto simp: Maze_init_def Let_def split: if_splits)
  then show "marked ?ls ?w chr_A (start m)" "marked ?ls ?w chr_B (goal m)"
    using ok r by (simp_all add: marks_ok_def)
qed

lemma Maze_init_start_goal:
  assumes "Maze_init contents = Inr m" and "start m = Some s" and "goal m = Some g"
  shows "s \<noteq> g" and "in_bounds m s" and "in_bounds m g"
    and "\<not> is_wall m s" and "\<not> is_wall m g"
proof -
  let ?ls = "splitlines contents"
  let ?w = "length (?ls ! 0)"
  have ms: "marked ?ls ?w chr_A (Some s)" and mg: "marked ?ls ?w chr_B (Some g)"
    using Maze_init_marks[OF assms(1)] assms(2,3) by simp_all
  have hw: "height m = int (length ?ls)" "width m = int ?w"
    using Maze_init_Inr(1,2)[OF assms(1)] by simp_all
  show "s \<noteq> g" using ms mg by (auto simp: marked_def)
  show "in_bounds m s" using ms hw by (auto simp: marked_def in_bounds_def)
  show "in_bounds m g" using mg hw by (auto simp: marked_def in_bounds_def)
  show "\<not> is_wall m s" using ms
    by (simp add: marked_def is_wall_def Maze_init_Inr(3)[OF assms(1)] wall_char_def)
  show "\<not> is_wall m g" using mg
    by (simp add: marked_def is_wall_def Maze_init_Inr(3)[OF assms(1)] wall_char_def)
qed

text \<open>
  Claim C10. In a maze constructed from a text, every column position of the grid that
  lies beyond the end of its line of the text is recorded in the table as open (\<open>False\<close>);
  construction does not fail on it.
\<close>

theorem short_rows_open:
  assumes "Maze_init contents = Inr m"
    and "i < length (splitlines contents)"
    and "length (splitlines contents ! i) \<le> j"
    and "int j < width m"
  shows "i < length (walls m) \<and> j < length (walls m ! i) \<and> walls m ! i ! j = False"
proof -
  have j: "j < length (splitlines contents ! 0)" using assms(4) Maze_init_Inr(2)[OF assms(1)] by simp
  show ?thesis
    using assms(2,3) j by (simp add: Maze_init_Inr(3)[OF assms(1)] wall_char_def)
qed

text \<open>A text whose second line is shorter than the first: \<^verbatim>\<open>A#B\<close>, \<^verbatim>\<open>#\<close>.\<close>

definition short_row_text :: pystr where
  "short_row_text = [chr_A, 35, chr_B, 10, 35]"

lemma Maze_init_short_row_text:
  "Maze_init short_row_text =
     Inr \<lparr>height = 2, width = 3, walls = [[False, True, False], [True, False, False]],
          start = Some (0, 0), goal = Some (0, 2), solution = None, num_explored = 0,
          explored = {}\<rparr>"
  by (simp add: short_row_text_def Maze_init_def splitlines_def line_boundary_def scan_row_def scan_cell_def)

lemma splitlines_short_row_text: "splitlines short_row_text = [[chr_A, 35, chr_B], [35]]"
  by (simp add: short_row_text_def splitlines_def line_boundary_def)

theorem short_rows_open_witness:
  "Maze_init short_row_text =
     Inr \<lparr>height = 2, width = 3, walls = [[False, True, False], [True, False, False]],
          start = Some (0, 0), goal = Some (0, 2), solution = None, num_explored = 0,
          explored = {}\<rparr>
   \<and> (1::nat) < length (splitlines short_row_text)
   \<and> length (splitlines short_row_text ! 1) \<le> 2
   \<and> [[False, True, False], [True, False, False]] ! 1 ! 2 = False"
  using short_rows_open [OF Maze_init_short_row_text, of 1 2]
  by (simp add: splitlines_short_row_text Maze_init_short_row_text)

section \<open>Correctness of the search\<close>

subsection \<open>Paths in the grid\<close>

text \<open>
  One move of the grid goes from a cell to the destination of one of its \<open>neighbors\<close>.
  \<open>reachable m s\<close> is the set of cells that finitely many moves reach from \<open>s\<close>, \<open>s\<close>
  included.
\<close>

definition step_rel :: "maze \<Rightarrow> (cell \<times> cell) set" where
  "step_rel m = {(c, d). d \<in> snd ` set (neighbors m c)}"

definition reachable :: "maze \<Rightarrow> cell \<Rightarrow> cell set" where
  "reachable m s = {c. (s, c) \<in> (step_rel m)\<^sup>*}"

text \<open>
  \<open>move m c (a, d)\<close>: the action \<open>a\<close> is set and \<open>neighbors\<close> lists it at \<open>c\<close> with the
  destination \<open>d\<close>. \<open>chain_ok m s n\<close>: the parent chain of the node \<open>n\<close> ends in a node of state
  \<open>s\<close> and every link of it is a move. \<open>depth\<close>, \<open>cells_to\<close> and \<open>actions_to\<close> are the length
  of the chain and what the walk back collects, in travel order.
\<close>

definition move :: "maze \<Rightarrow> cell \<Rightarrow> string option \<times> cell \<Rightarrow> bool" where
  "move m c x = (case fst x of None \<Rightarrow> False | Some a \<Rightarrow> (a, snd x) \<in> set (neighbors m c))"

fun chain_ok :: "maze \<Rightarrow> cell \<Rightarrow> node \<Rightarrow> bool" where
  "chain_ok m s (Node c None a) = (c = s)"
| "chain_ok m s (Node c (Some p) a) = (chain_ok m s p \<and> move m (state p) (a, c))"

fun depth :: "node \<Rightarrow> nat" where
  "depth (Node c None a) = 0"
| "depth (Node c (Some p) a) = Suc (depth p)"

fun cells_to :: "node \<Rightarrow> cell list" where
  "cells_to (Node c None a) = []"
| "cells_to (Node c (Some p) a) = cells_to p @ [c]"

fun actions_to :: "node \<Rightarrow> string option list" where
  "actions_to (Node c None a) = []"
| "actions_to (Node c (Some p) a) = actions_to p @ [a]"

text \<open>
  The neighbours for which the loop of \<open>solve\<close> adds a child, given the states that are
  explored or in the frontier when the loop starts.
\<close>

fun fresh :: "cell set \<Rightarrow> (string \<times> cell) list \<Rightarrow> (string \<times> cell) list" where
  "fresh seen [] = []"
| "fresh seen (x # xs) = (if snd x \<in> seen then fresh seen xs else x # fresh (insert (snd x) seen) xs)"

definition child :: "node \<Rightarrow> string \<times> cell \<Rightarrow> node" where
  "child node x = Node (snd x) (Some node) (Some (fst x))"

definition same_class :: "frontier \<Rightarrow> frontier \<Rightarrow> bool" where
  "same_class f f' = (case f of StackFrontier _ \<Rightarrow> (case f' of StackFrontier _ \<Rightarrow> True | _ \<Rightarrow> False)
                               | QueueFrontier _ \<Rightarrow> (case f' of QueueFrontier _ \<Rightarrow> True | _ \<Rightarrow> False))"

lemma same_class_refl: "same_class f f"
  by (cases f) (simp_all add: same_class_def)

lemma same_class_add: "same_class (frontier_add f n) f' = same_class f f'"
  by (cases f; cases f') (simp_all add: same_class_def)

lemma same_class_add2: "same_class f (frontier_add f' n) = same_class f f'"
  by (cases f; cases f') (simp_all add: same_class_def)

lemma trace_back_eq:
  "trace_back n acts cs = (acts @ rev (actions_to n), cs @ rev (cells_to n))"
  by (induction n acts cs rule: trace_back.induct) simp_all

lemma length_cells_to: "length (cells_to n) = depth n"
  by (induction n rule: depth.induct) simp_all

lemma length_actions_to: "length (actions_to n) = depth n"
  by (induction n rule: depth.induct) simp_all

lemma add_child_eq:
  "add_child m node x fr =
     (if snd x \<in> explored m \<union> states fr then fr else frontier_add fr (child node x))"
  by (cases x) (auto simp: add_child_def contains_state_iff child_def)

lemma fold_add_child_nodes:
  "nodes (fold (add_child m node) nbs fr) =
     nodes fr @ map (child node) (fresh (explored m \<union> states fr) nbs)
   \<and> same_class (fold (add_child m node) nbs fr) fr"
proof (induction nbs arbitrary: fr)
  case Nil
  show ?case by (simp add: same_class_refl)
next
  case (Cons x nbs)
  show ?case
  proof (cases "snd x \<in> explored m \<union> states fr")
    case True
    then show ?thesis using Cons[of fr] by (simp add: add_child_eq)
  next
    case False
    have st: "explored m \<union> states (frontier_add fr (child node x))
                = insert (snd x) (explored m \<union> states fr)"
      by (simp add: states_add child_def)
    show ?thesis using False Cons[of "frontier_add fr (child node x)"]
      by (simp add: add_child_eq st nodes_add same_class_add2)
  qed
qed

lemma fresh_subset: "set (fresh seen xs) \<subseteq> set xs"
  by (induction xs arbitrary: seen) auto

lemma fresh_avoids: "snd ` set (fresh seen xs) \<inter> seen = {}"
proof (induction xs arbitrary: seen)
  case Nil
  show ?case by simp
next
  case (Cons x xs)
  show ?case using Cons[of seen] Cons[of "insert (snd x) seen"] by auto
qed

lemma fresh_distinct: "distinct (map snd (fresh seen xs))"
proof (induction xs arbitrary: seen)
  case Nil
  show ?case by simp
next
  case (Cons x xs)
  show ?case using Cons[of seen] Cons[of "insert (snd x) seen"]
      fresh_avoids[of "insert (snd x) seen" xs] by auto
qed

lemma fresh_covers: "snd ` set xs \<subseteq> seen \<union> snd ` set (fresh seen xs)"
proof (induction xs arbitrary: seen)
  case Nil
  show ?case by simp
next
  case (Cons x xs)
  show ?case using Cons[of seen] Cons[of "insert (snd x) seen"] by auto
qed

lemma neighbors_grid:
  "height m' = height m \<Longrightarrow> width m' = width m \<Longrightarrow> walls m' = walls m
     \<Longrightarrow> neighbors m' c = neighbors m c"
  by (cases c) (simp add: neighbors_filter in_bounds_def is_wall_def)

lemma frontier_remove_cases:
  assumes "frontier_remove fr = Inr (node, fr1)"
  shows "(fr = StackFrontier (nodes fr1 @ [node]) \<and> fr1 = StackFrontier (nodes fr1))
       \<or> (fr = QueueFrontier (node # nodes fr1) \<and> fr1 = QueueFrontier (nodes fr1))"
proof (cases fr)
  case (StackFrontier ns)
  with assms have "ns \<noteq> []" "node = last ns" "fr1 = StackFrontier (butlast ns)"
    by (auto simp: StackFrontier_remove_def frontier_empty_def split: if_splits)
  then show ?thesis using StackFrontier by simp
next
  case (QueueFrontier ns)
  with assms have ne: "ns \<noteq> []" and n: "node = ns ! 0" and r: "fr1 = QueueFrontier (drop 1 ns)"
    by (auto simp: QueueFrontier_remove_def frontier_empty_def split: if_splits)
  from ne obtain x xs where "ns = x # xs" by (cases ns) auto
  then show ?thesis using QueueFrontier n r by simp
qed

lemma iteration_Inr:
  assumes "iteration fr m = Inr (fr', m')"
  obtains node fr1 g where
    "frontier_remove fr = Inr (node, fr1)" "goal m = Some g" "state node \<noteq> g"
    "m' = m\<lparr>num_explored := num_explored m + 1, explored := insert (state node) (explored m)\<rparr>"
    "fr' = fold (add_child m' node) (neighbors m' (state node)) fr1"
  using assms
  by (auto simp: iteration_def Let_def split: if_splits sum.splits option.splits prod.splits)

lemma iteration_Inl:
  assumes "iteration fr m = Inl r" "goal m = Some g"
  shows "(nodes fr = [] \<and> r = (Some NoSolution, m))
       \<or> (\<exists>node fr1. frontier_remove fr = Inr (node, fr1) \<and> state node = g
            \<and> r = (None, m\<lparr>num_explored := num_explored m + 1,
                            solution := Some (actions_to node, cells_to node)\<rparr>))"
proof (cases "frontier_empty fr")
  case True
  then show ?thesis using assms by (simp add: iteration_def frontier_empty_def)
next
  case False
  then obtain node fr1 where rm: "frontier_remove fr = Inr (node, fr1)"
    by (cases fr) (auto simp: StackFrontier_remove_def QueueFrontier_remove_def)
  show ?thesis using assms False rm
    by (auto simp: iteration_def Let_def trace_back_eq split: if_splits)
qed

subsection \<open>The invariant of the search loop\<close>

text \<open>
  At the head of the loop, for the grid \<open>m0\<close> with start \<open>s\<close> and goal \<open>g\<close>: the grid is
  unchanged; every node of the frontier has a chain of moves back to the start; the
  states of the frontier are pairwise different and not explored; the start is explored
  or in the frontier; every neighbour of an explored cell is explored or in the frontier;
  the goal is not explored; every explored cell is reachable; and the counter is the
  number of explored cells.
\<close>

definition search_inv :: "maze \<Rightarrow> cell \<Rightarrow> cell \<Rightarrow> frontier \<Rightarrow> maze \<Rightarrow> bool" where
  "search_inv m0 s g fr m \<longleftrightarrow>
     height m = height m0 \<and> width m = width m0 \<and> walls m = walls m0 \<and> goal m = Some g \<and>
     (\<forall>n \<in> set (nodes fr). chain_ok m0 s n) \<and>
     distinct (map state (nodes fr)) \<and>
     states fr \<inter> explored m = {} \<and>
     s \<in> explored m \<union> states fr \<and>
     (\<forall>c \<in> explored m. snd ` set (neighbors m0 c) \<subseteq> explored m \<union> states fr) \<and>
     g \<notin> explored m \<and>
     explored m \<subseteq> reachable m0 s \<and>
     finite (explored m) \<and>
     num_explored m = card (explored m)"

lemma step_rel_iff: "(c, d) \<in> step_rel m \<longleftrightarrow> d \<in> snd ` set (neighbors m c)"
  by (simp add: step_rel_def)

lemma reachable_refl: "s \<in> reachable m s"
  by (simp add: reachable_def)

lemma reachable_step:
  "c \<in> reachable m s \<Longrightarrow> d \<in> snd ` set (neighbors m c) \<Longrightarrow> d \<in> reachable m s"
  unfolding reachable_def using step_rel_iff[of c d m]
  by (simp add: rtrancl.rtrancl_into_rtrancl)

lemma chain_ok_reachable: "chain_ok m s n \<Longrightarrow> state n \<in> reachable m s"
proof (induction n rule: depth.induct)
  case (1 c a)
  then show ?case by (simp add: reachable_refl)
next
  case (2 c p a)
  then obtain act where "a = Some act" "(act, c) \<in> set (neighbors m (state p))" "chain_ok m s p"
    by (auto simp: move_def split: option.splits)
  then have "state p \<in> reachable m s" "c \<in> snd ` set (neighbors m (state p))"
    using 2 by force+
  then show ?case using reachable_step by simp
qed

lemma closed_reachable:
  assumes "s \<in> E" and "\<forall>c \<in> E. snd ` set (neighbors m c) \<subseteq> E"
  shows "reachable m s \<subseteq> E"
proof
  fix c assume "c \<in> reachable m s"
  then have "(s, c) \<in> (step_rel m)\<^sup>*" by (simp add: reachable_def)
  then show "c \<in> E"
  proof (induction rule: rtrancl_induct)
    case base
    show ?case using assms(1) .
  next
    case (step y z)
    then show ?case using assms(2) by (auto simp: step_rel_iff)
  qed
qed

lemma chain_ok_child:
  "chain_ok m s node \<Longrightarrow> x \<in> set (neighbors m (state node)) \<Longrightarrow> chain_ok m s (child node x)"
  by (simp add: child_def move_def)

lemma search_inv_init:
  assumes "goal m = Some g" and "nodes fr0 = []"
  shows "search_inv m s g (frontier_add fr0 (Node s None None))
           (m\<lparr>num_explored := 0, explored := {}\<rparr>)"
  using assms by (simp add: search_inv_def nodes_add states_def)

lemma search_inv_step:
  assumes inv: "search_inv m0 s g fr m" and it: "iteration fr m = Inr (fr', m')"
  shows "search_inv m0 s g fr' m'"
proof -
  from it obtain node fr1 g' where
    rm: "frontier_remove fr = Inr (node, fr1)" and g': "goal m = Some g'" and ng: "state node \<noteq> g'" and
    m': "m' = m\<lparr>num_explored := num_explored m + 1, explored := insert (state node) (explored m)\<rparr>" and
    fr': "fr' = fold (add_child m' node) (neighbors m' (state node)) fr1"
    by (rule iteration_Inr)
  have grid: "height m = height m0" "width m = width m0" "walls m = walls m0" "goal m = Some g"
    using inv by (simp_all add: search_inv_def)
  have gg: "g' = g" using g' grid by simp
  let ?E = "explored m" and ?E' = "insert (state node) (explored m)"
  let ?nbs = "neighbors m0 (state node)"
  let ?seen = "?E' \<union> states fr1"
  let ?new = "fresh ?seen ?nbs"
  have nb: "neighbors m' (state node) = ?nbs"
    by (rule neighbors_grid) (simp_all add: m' grid)
  have E': "explored m' = ?E'" by (simp add: m')
  have nodes': "nodes fr' = nodes fr1 @ map (child node) ?new"
    using fold_add_child_nodes[of m' node ?nbs fr1] by (simp add: fr' nb E')
  have nodes_fr: "set (nodes fr) = insert node (set (nodes fr1))"
    using frontier_remove_Inr(1)[OF rm] .
  have split: "map state (nodes fr) = map state (nodes fr1) @ [state node]
             \<or> map state (nodes fr) = state node # map state (nodes fr1)"
    using frontier_remove_cases[OF rm] by (metis frontier.sel(1) frontier.sel(2) list.simps(8) list.simps(9) map_append)
  have dist: "distinct (map state (nodes fr))" using inv by (simp add: search_inv_def)
  have d1: "distinct (map state (nodes fr1))" and notin1: "state node \<notin> states fr1"
    using split dist by (auto simp: states_def)
  have st_fr: "states fr = insert (state node) (states fr1)"
    using nodes_fr by (simp add: states_def)
  have disj: "states fr \<inter> ?E = {}" using inv by (simp add: search_inv_def)
  have notinE: "state node \<notin> ?E" using disj st_fr by auto
  have state_child: "map state (map (child node) ?new) = map snd ?new"
    by (simp add: child_def comp_def)
  have st': "states fr' = states fr1 \<union> snd ` set ?new"
    using nodes' state_child by (simp add: states_def image_Un image_image child_def)
  have avoid: "snd ` set ?new \<inter> ?seen = {}" by (rule fresh_avoids)
  have cover: "snd ` set ?nbs \<subseteq> ?seen \<union> snd ` set ?new" by (rule fresh_covers)
  have chain_node: "chain_ok m0 s node" using inv nodes_fr by (simp add: search_inv_def)
  have c1: "\<forall>n \<in> set (nodes fr'). chain_ok m0 s n"
  proof
    fix n assume "n \<in> set (nodes fr')"
    then consider "n \<in> set (nodes fr1)" | x where "x \<in> set ?new" "n = child node x"
      using nodes' by auto
    then show "chain_ok m0 s n"
    proof cases
      case 1
      then show ?thesis using inv nodes_fr by (simp add: search_inv_def)
    next
      case 2
      then have "x \<in> set ?nbs" using fresh_subset by blast
      then show ?thesis using 2 chain_node by (simp add: chain_ok_child)
    qed
  qed
  have ms: "map state (nodes fr') = map state (nodes fr1) @ map snd ?new"
    using state_child by (simp add: nodes')
  have "set (map state (nodes fr1)) \<inter> set (map snd ?new) = {}"
    using avoid by (auto simp: states_def)
  then have c2: "distinct (map state (nodes fr'))"
    unfolding ms distinct_append using d1 fresh_distinct[of ?seen ?nbs] by blast
  have c3: "states fr' \<inter> explored m' = {}"
    using disj st_fr notin1 avoid by (auto simp: st' E')
  have c4: "s \<in> explored m' \<union> states fr'"
    using inv st_fr by (auto simp: search_inv_def st' E')
  have c5: "\<forall>c \<in> explored m'. snd ` set (neighbors m0 c) \<subseteq> explored m' \<union> states fr'"
  proof
    fix c assume "c \<in> explored m'"
    then consider "c = state node" | "c \<in> ?E" by (auto simp: E')
    then show "snd ` set (neighbors m0 c) \<subseteq> explored m' \<union> states fr'"
    proof cases
      case 1
      then show ?thesis using cover by (auto simp: st' E')
    next
      case 2
      then have "snd ` set (neighbors m0 c) \<subseteq> ?E \<union> states fr"
        using inv by (simp add: search_inv_def)
      then show ?thesis using st_fr by (auto simp: st' E')
    qed
  qed
  have c6: "g \<notin> explored m'" using inv ng gg by (simp add: search_inv_def E')
  have c7: "explored m' \<subseteq> reachable m0 s"
    using inv chain_ok_reachable[OF chain_node] by (simp add: search_inv_def E')
  have fin: "finite ?E" using inv by (simp add: search_inv_def)
  have c8: "finite (explored m')" using fin by (simp add: E')
  have c9: "num_explored m' = card (explored m')"
    using inv fin notinE by (simp add: search_inv_def m')
  have c0: "height m' = height m0 \<and> width m' = width m0 \<and> walls m' = walls m0 \<and> goal m' = Some g"
    using grid by (simp add: m')
  show ?thesis
    unfolding search_inv_def using c0 c1 c2 c3 c4 c5 c6 c7 c8 c9 by blast
qed

subsection \<open>Runs of the loop\<close>

text \<open>
  \<open>loop_state n\<close> is the frontier and the maze at the head of the loop after \<open>n\<close> passes
  (\<open>None\<close> when the loop has left before), \<open>removals n\<close> the states of the nodes that the
  first \<open>n\<close> passes remove from the frontier, in order, and \<open>route m c\<close> holds of a list of
  actions and cells when each is a move from the cell before, the first from \<open>c\<close>.
\<close>

fun loop_state :: "nat \<Rightarrow> frontier \<Rightarrow> maze \<Rightarrow> (frontier \<times> maze) option" where
  "loop_state 0 fr m = Some (fr, m)"
| "loop_state (Suc n) fr m =
     (case iteration fr m of Inl r \<Rightarrow> None | Inr (fr', m') \<Rightarrow> loop_state n fr' m')"

fun removals :: "nat \<Rightarrow> frontier \<Rightarrow> maze \<Rightarrow> cell list" where
  "removals 0 fr m = []"
| "removals (Suc n) fr m =
     (case frontier_remove fr of
        Inl e \<Rightarrow> []
      | Inr (node, fr1) \<Rightarrow>
          state node # (case iteration fr m of Inl r \<Rightarrow> [] | Inr (fr', m') \<Rightarrow> removals n fr' m'))"

fun route :: "maze \<Rightarrow> cell \<Rightarrow> (string option \<times> cell) list \<Rightarrow> bool" where
  "route m c [] = True"
| "route m c (x # xs) = (move m c x \<and> route m (snd x) xs)"

lemma solve_loop_rule:
  assumes "I fr m"
    and step: "\<And>fr m fr' m'. I fr m \<Longrightarrow> iteration fr m = Inr (fr', m') \<Longrightarrow> I fr' m'"
    and exit: "\<And>fr m r. I fr m \<Longrightarrow> iteration fr m = Inl r \<Longrightarrow> Q r"
  shows "Q (solve_loop fr m)"
  using assms(1)
proof (induction fr m rule: solve_loop.induct)
  case (1 fr m)
  show ?case
  proof (cases "iteration fr m")
    case (Inl r)
    then have "solve_loop fr m = r" by (subst solve_loop.simps) simp
    then show ?thesis using exit[OF "1.prems" Inl] by simp
  next
    case (Inr x)
    obtain fr' m' where x: "x = (fr', m')" by (cases x)
    have eq: "solve_loop fr m = solve_loop fr' m'"
      by (subst solve_loop.simps) (simp add: Inr x)
    have "I fr' m'" using step[OF "1.prems"] Inr x by simp
    then have "Q (solve_loop fr' m')" using "1.IH" Inr x by simp
    then show ?thesis using eq by simp
  qed
qed

lemma loop_state_rule:
  assumes "I fr m"
    and step: "\<And>fr m fr' m'. I fr m \<Longrightarrow> iteration fr m = Inr (fr', m') \<Longrightarrow> I fr' m'"
    and "loop_state n fr m = Some (fr', m')"
  shows "I fr' m'"
  using assms(1,3)
proof (induction n arbitrary: fr m)
  case 0
  then show ?case by simp
next
  case (Suc n)
  from Suc.prems(2) obtain fr1 m1 where it: "iteration fr m = Inr (fr1, m1)"
    and ls: "loop_state n fr1 m1 = Some (fr', m')"
    by (auto split: sum.splits)
  show ?case using Suc.IH[OF step[OF Suc.prems(1) it] ls] .
qed

lemma loop_exits:
  "\<exists>n fr' m'. loop_state n fr m = Some (fr', m') \<and> iteration fr' m' = Inl (solve_loop fr m)"
proof (induction fr m rule: solve_loop.induct)
  case (1 fr m)
  show ?case
  proof (cases "iteration fr m")
    case (Inl r)
    then have "solve_loop fr m = r" by (subst solve_loop.simps) simp
    then have "loop_state 0 fr m = Some (fr, m) \<and> iteration fr m = Inl (solve_loop fr m)"
      using Inl by simp
    then show ?thesis by blast
  next
    case (Inr x)
    obtain fr1 m1 where x: "x = (fr1, m1)" by (cases x)
    have eq: "solve_loop fr m = solve_loop fr1 m1"
      by (subst solve_loop.simps) (simp add: Inr x)
    from "1.IH"[OF Inr x[symmetric]] obtain n fr' m' where
      "loop_state n fr1 m1 = Some (fr', m')" "iteration fr' m' = Inl (solve_loop fr1 m1)"
      by blast
    then have "loop_state (Suc n) fr m = Some (fr', m') \<and> iteration fr' m' = Inl (solve_loop fr m)"
      using Inr x eq by simp
    then show ?thesis by blast
  qed
qed

lemma search_inv_exit:
  assumes inv: "search_inv m0 s g fr m" and it: "iteration fr m = Inl r"
  shows "(nodes fr = [] \<and> r = (Some NoSolution, m) \<and> explored m = reachable m0 s
            \<and> g \<notin> reachable m0 s)
       \<or> (\<exists>node. node \<in> set (nodes fr) \<and> chain_ok m0 s node \<and> state node = g
            \<and> r = (None, m\<lparr>num_explored := num_explored m + 1,
                            solution := Some (actions_to node, cells_to node)\<rparr>))"
proof -
  have g: "goal m = Some g" using inv by (simp add: search_inv_def)
  from iteration_Inl[OF it g] show ?thesis
  proof
    assume e: "nodes fr = [] \<and> r = (Some NoSolution, m)"
    then have st: "states fr = {}" by (simp add: states_def)
    have "s \<in> explored m" "\<forall>c \<in> explored m. snd ` set (neighbors m0 c) \<subseteq> explored m"
      using inv st by (simp_all add: search_inv_def)
    then have "reachable m0 s \<subseteq> explored m" by (rule closed_reachable)
    moreover have "explored m \<subseteq> reachable m0 s" "g \<notin> explored m"
      using inv by (simp_all add: search_inv_def)
    ultimately show ?thesis using e by blast
  next
    assume "\<exists>node fr1. frontier_remove fr = Inr (node, fr1) \<and> state node = g
            \<and> r = (None, m\<lparr>num_explored := num_explored m + 1,
                            solution := Some (actions_to node, cells_to node)\<rparr>)"
    then obtain node fr1 where rm: "frontier_remove fr = Inr (node, fr1)" and sg: "state node = g"
      and r: "r = (None, m\<lparr>num_explored := num_explored m + 1,
                            solution := Some (actions_to node, cells_to node)\<rparr>)"
      by blast
    have "node \<in> set (nodes fr)" using frontier_remove_Inr(1)[OF rm] by simp
    moreover from this have "chain_ok m0 s node" using inv by (simp add: search_inv_def)
    ultimately show ?thesis using sg r by blast
  qed
qed

lemma route_append:
  "route m c (xs @ [x]) \<longleftrightarrow>
     route m c xs \<and> move m (last (c # map snd xs)) x"
  by (induction xs arbitrary: c) simp_all

lemma chain_ok_route:
  "chain_ok m s n \<Longrightarrow>
     route m s (zip (actions_to n) (cells_to n)) \<and> last (s # cells_to n) = state n"
proof (induction n rule: depth.induct)
  case (1 c a)
  then show ?case by simp
next
  case (2 c p a)
  then have ih: "route m s (zip (actions_to p) (cells_to p))" "last (s # cells_to p) = state p"
    and a: "move m (state p) (a, c)"
    by simp_all
  have len: "length (actions_to p) = length (cells_to p)"
    by (simp add: length_actions_to length_cells_to)
  have z: "zip (actions_to p @ [a]) (cells_to p @ [c]) = zip (actions_to p) (cells_to p) @ [(a, c)]"
    using len by simp
  have sn: "map snd (zip (actions_to p) (cells_to p)) = cells_to p" using len by simp
  have l: "last (s # cells_to p @ [c]) = c"
    by (metis append_Cons last_snoc)
  have "route m s (zip (actions_to p) (cells_to p) @ [(a, c)])"
    unfolding route_append sn using ih a by simp
  then show ?case using l by (simp add: z)
qed

text \<open>
  The same for a whole \<open>solve\<close> on a frontier object \<open>fr0\<close> that was just constructed.
\<close>

definition search_states :: "frontier \<Rightarrow> nat \<Rightarrow> maze \<Rightarrow> (frontier \<times> maze) option" where
  "search_states fr0 n m =
     (case start m of
        None \<Rightarrow> None
      | Some s \<Rightarrow> loop_state n (frontier_add fr0 (Node s None None))
                   (m\<lparr>num_explored := 0, explored := {}\<rparr>))"

definition search_removals :: "frontier \<Rightarrow> nat \<Rightarrow> maze \<Rightarrow> cell list" where
  "search_removals fr0 n m =
     (case start m of
        None \<Rightarrow> []
      | Some s \<Rightarrow> removals n (frontier_add fr0 (Node s None None))
                   (m\<lparr>num_explored := 0, explored := {}\<rparr>))"

lemma solve_from_eq:
  "start m = Some s \<Longrightarrow>
     solve_from fr0 m = solve_loop (frontier_add fr0 (Node s None None))
                          (m\<lparr>num_explored := 0, explored := {}\<rparr>)"
  by (simp add: solve_from_def)

lemma solve_from_result:
  assumes "start m = Some s" "goal m = Some g" "nodes fr0 = []"
  shows "(\<exists>m'. solve_from fr0 m = (Some NoSolution, m') \<and> explored m' = reachable m s
            \<and> num_explored m' = card (reachable m s) \<and> solution m' = solution m
            \<and> g \<notin> reachable m s)
       \<or> (\<exists>node m'. solve_from fr0 m = (None, m') \<and> chain_ok m s node \<and> state node = g
            \<and> solution m' = Some (actions_to node, cells_to node))"
    (is "?Q (solve_from fr0 m)")
proof -
  let ?I = "\<lambda>fr m'. search_inv m s g fr m' \<and> solution m' = solution m"
  have "?Q (solve_loop (frontier_add fr0 (Node s None None)) (m\<lparr>num_explored := 0, explored := {}\<rparr>))"
  proof (rule solve_loop_rule[where I = ?I])
    show "?I (frontier_add fr0 (Node s None None)) (m\<lparr>num_explored := 0, explored := {}\<rparr>)"
      using search_inv_init[OF assms(2,3)] by simp
  next
    fix fr m1 fr' m'
    assume a: "?I fr m1" "iteration fr m1 = Inr (fr', m')"
    then have "search_inv m s g fr' m'" using search_inv_step by blast
    moreover have "solution m' = solution m1" using a(2) by (rule iteration_Inr) simp
    ultimately show "?I fr' m'" using a(1) by simp
  next
    fix fr m1 r
    assume a: "?I fr m1" "iteration fr m1 = Inl r"
    then have inv: "search_inv m s g fr m1" by simp
    from search_inv_exit[OF inv a(2)] show "?Q r"
    proof
      assume e: "nodes fr = [] \<and> r = (Some NoSolution, m1) \<and> explored m1 = reachable m s \<and> g \<notin> reachable m s"
      moreover have "num_explored m1 = card (explored m1)" using inv by (simp add: search_inv_def)
      ultimately show ?thesis using a(1) by simp
    next
      assume "\<exists>node. node \<in> set (nodes fr) \<and> chain_ok m s node \<and> state node = g
            \<and> r = (None, m1\<lparr>num_explored := num_explored m1 + 1,
                            solution := Some (actions_to node, cells_to node)\<rparr>)"
      then obtain node where "chain_ok m s node" "state node = g"
        "r = (None, m1\<lparr>num_explored := num_explored m1 + 1,
                            solution := Some (actions_to node, cells_to node)\<rparr>)" by blast
      then have "\<exists>m'. r = (None, m') \<and> chain_ok m s node \<and> state node = g
            \<and> solution m' = Some (actions_to node, cells_to node)" by simp
      then show ?thesis by blast
    qed
  qed
  then show ?thesis using solve_from_eq[OF assms(1)] by simp
qed

lemma neighbor_differs: "(a, d) \<in> set (neighbors m c) \<Longrightarrow> d \<noteq> c"
  by (cases c) (auto simp: neighbors_iff)

lemma chain_ok_solution:
  assumes "chain_ok m s node" "state node = g" "s \<noteq> g"
  shows "length (actions_to node) = length (cells_to node)
       \<and> route m s (zip (actions_to node) (cells_to node))
       \<and> cells_to node \<noteq> []
       \<and> hd (cells_to node) \<in> snd ` set (neighbors m s)
       \<and> hd (cells_to node) \<noteq> s
       \<and> last (cells_to node) = g"
proof -
  have len: "length (actions_to node) = length (cells_to node)"
    by (simp add: length_actions_to length_cells_to)
  have r: "route m s (zip (actions_to node) (cells_to node))" and l: "last (s # cells_to node) = g"
    using chain_ok_route[OF assms(1)] assms(2) by simp_all
  have ne: "cells_to node \<noteq> []" using l assms(3) by auto
  then obtain c cs where cs: "cells_to node = c # cs" by (cases "cells_to node") auto
  with len obtain a as where as: "actions_to node = a # as" by (cases "actions_to node") auto
  have mv: "move m s (a, c)" using r by (simp add: cs as)
  then obtain act where act: "(act, c) \<in> set (neighbors m s)"
    by (auto simp: move_def split: option.splits)
  have c1: "c \<in> snd ` set (neighbors m s)" using act by (rule image_eqI[rotated]) simp
  have c2: "c \<noteq> s" using act by (rule neighbor_differs)
  have lg: "last (cells_to node) = g" using l ne by simp
  show ?thesis using len r ne lg c1 c2 by (simp add: cs)
qed

lemma solve_from_found:
  assumes "start m = Some s" "goal m = Some g" "nodes fr0 = []" "g \<in> reachable m s"
  obtains node m' where "solve_from fr0 m = (None, m')" "chain_ok m s node" "state node = g"
    "solution m' = Some (actions_to node, cells_to node)"
proof -
  from solve_from_result[OF assms(1,2,3)]
  have "\<exists>node m'. solve_from fr0 m = (None, m') \<and> chain_ok m s node \<and> state node = g
            \<and> solution m' = Some (actions_to node, cells_to node)"
  proof
    assume "\<exists>m'. solve_from fr0 m = (Some NoSolution, m') \<and> explored m' = reachable m s
            \<and> num_explored m' = card (reachable m s) \<and> solution m' = solution m
            \<and> g \<notin> reachable m s"
    then have "g \<notin> reachable m s" by blast
    then show ?thesis using assms(4) by simp
  next
    assume "\<exists>node m'. solve_from fr0 m = (None, m') \<and> chain_ok m s node \<and> state node = g
            \<and> solution m' = Some (actions_to node, cells_to node)"
    then show ?thesis .
  qed
  then show thesis using that by blast
qed

text \<open>
  Claim C2. On a grid whose goal is reachable from its start, a different cell,
  \<open>solve\<close> returns and records a solution: as many actions as cells, every cell reached
  from the one before (the first from the start) by the move that \<open>neighbors\<close> lists under
  the recorded action, a first cell that is a neighbour of the start and not the start,
  and the goal as last cell.
\<close>

theorem solve_valid:
  assumes "maze_shape m" and "start m = Some s" and "goal m = Some g" and "s \<noteq> g"
    and "g \<in> reachable m s"
  shows "\<exists>acts cells m'. solve m = (None, m') \<and> solution m' = Some (acts, cells)
           \<and> length acts = length cells \<and> route m s (zip acts cells)
           \<and> cells \<noteq> [] \<and> hd cells \<in> snd ` set (neighbors m s) \<and> hd cells \<noteq> s
           \<and> last cells = g"
proof -
  have e: "nodes (StackFrontier []) = []" by simp
  obtain node m' where r: "solve_from (StackFrontier []) m = (None, m')"
    and c: "chain_ok m s node" and sg: "state node = g"
    and sol: "solution m' = Some (actions_to node, cells_to node)"
    using solve_from_found[OF assms(2,3) e assms(5)] by blast
  have "solve m = (None, m') \<and> solution m' = Some (actions_to node, cells_to node)
           \<and> length (actions_to node) = length (cells_to node)
           \<and> route m s (zip (actions_to node) (cells_to node))
           \<and> cells_to node \<noteq> [] \<and> hd (cells_to node) \<in> snd ` set (neighbors m s)
           \<and> hd (cells_to node) \<noteq> s \<and> last (cells_to node) = g"
    using chain_ok_solution[OF c sg assms(4)] r sol by (simp add: solve_def)
  then show ?thesis by (intro exI)
qed

text \<open>
  Claim C4. On a grid whose goal is not reachable from its start, \<open>solve\<close> raises the
  exception \<^verbatim>\<open>no solution\<close>, and then the counter is the number of cells reachable from
  the start, the start included; these cells are the explored set.
\<close>

theorem solve_unsolvable:
  assumes "maze_shape m" and "start m = Some s" and "goal m = Some g"
    and "g \<notin> reachable m s"
  shows "fst (solve m) = Some NoSolution
       \<and> num_explored (snd (solve m)) = card (reachable m s)
       \<and> explored (snd (solve m)) = reachable m s"
proof -
  have e: "nodes (StackFrontier []) = []" by simp
  from solve_from_result[OF assms(2,3) e]
  show ?thesis
  proof
    assume "\<exists>m'. solve_from (StackFrontier []) m = (Some NoSolution, m') \<and> explored m' = reachable m s
            \<and> num_explored m' = card (reachable m s) \<and> solution m' = solution m
            \<and> g \<notin> reachable m s"
    then obtain m' where "solve_from (StackFrontier []) m = (Some NoSolution, m')"
      "explored m' = reachable m s" "num_explored m' = card (reachable m s)" by blast
    then show ?thesis by (simp add: solve_def)
  next
    assume "\<exists>node m'. solve_from (StackFrontier []) m = (None, m') \<and> chain_ok m s node \<and> state node = g
            \<and> solution m' = Some (actions_to node, cells_to node)"
    then obtain node where "chain_ok m s node" "state node = g" by blast
    then have "g \<in> reachable m s" using chain_ok_reachable by blast
    then show ?thesis using assms(4) by simp
  qed
qed

subsection \<open>Two small mazes\<close>

text \<open>
  The texts \<^verbatim>\<open>A B\<close> and \<^verbatim>\<open>A#B\<close>: a corridor of three cells, open and with a wall between
  start and goal.
\<close>

definition corridor :: maze where
  "corridor = \<lparr>height = 1, width = 3, walls = [[False, False, False]],
      start = Some (0, 0), goal = Some (0, 2), solution = None, num_explored = 0, explored = {}\<rparr>"

definition blocked :: maze where
  "blocked = \<lparr>height = 1, width = 3, walls = [[False, True, False]],
      start = Some (0, 0), goal = Some (0, 2), solution = None, num_explored = 0, explored = {}\<rparr>"

lemma Maze_init_corridor: "Maze_init [chr_A, chr_space, chr_B] = Inr corridor"
  by (simp add: corridor_def Maze_init_def splitlines_def line_boundary_def scan_row_def scan_cell_def)

lemma Maze_init_blocked: "Maze_init [chr_A, 35, chr_B] = Inr blocked"
  by (simp add: blocked_def Maze_init_def splitlines_def line_boundary_def scan_row_def scan_cell_def)

lemma corridor_fields:
  "maze_shape corridor" "start corridor = Some (0, 0)" "goal corridor = Some (0, 2)"
  by (simp_all add: corridor_def maze_shape_def)

lemma blocked_fields:
  "maze_shape blocked" "start blocked = Some (0, 0)" "goal blocked = Some (0, 2)"
  by (simp_all add: blocked_def maze_shape_def)

lemma corridor_neighbors:
  "neighbors corridor (0, 0) = [(''right'', (0, 1))]"
  "neighbors corridor (0, 1) = [(''left'', (0, 0)), (''right'', (0, 2))]"
  by (simp_all add: neighbors_filter in_bounds_def is_wall_def corridor_def)

lemma corridor_reachable: "(0, 2) \<in> reachable corridor (0, 0)"
proof -
  have "(0, 1) \<in> reachable corridor (0, 0)"
    by (rule reachable_step[OF reachable_refl]) (simp add: corridor_neighbors)
  then show ?thesis
    by (rule reachable_step) (simp add: corridor_neighbors)
qed

lemma blocked_neighbors: "neighbors blocked (0, 0) = []"
  by (simp add: neighbors_filter in_bounds_def is_wall_def blocked_def)

lemma blocked_reachable: "reachable blocked (0, 0) = {(0, 0)}"
proof
  show "reachable blocked (0, 0) \<subseteq> {(0, 0)}"
    by (rule closed_reachable) (simp_all add: blocked_neighbors)
  show "{(0, 0)} \<subseteq> reachable blocked (0, 0)" by (simp add: reachable_refl)
qed

lemma solve_corridor:
  "solve corridor = (None, corridor\<lparr>solution := Some ([Some ''right'', Some ''right''], [(0, 1), (0, 2)]),
     num_explored := 3, explored := {(0, 1), (0, 0)}\<rparr>)"
  by code_simp

lemma solve_blocked:
  "solve blocked = (Some NoSolution, blocked\<lparr>num_explored := 1, explored := {(0, 0)}\<rparr>)"
  by code_simp

theorem neighbors_exact_witness:
  "maze_shape corridor
   \<and> neighbors corridor (0, 1) =
       filter (\<lambda>(a, d). in_bounds corridor d \<and> \<not> is_wall corridor d)
         [(''up'', (0 - 1, 1)), (''down'', (0 + 1, 1)), (''left'', (0, 1 - 1)), (''right'', (0, 1 + 1))]
   \<and> neighbors corridor (0, 1) = [(''left'', (0, 0)), (''right'', (0, 2))]"
  using neighbors_exact [OF corridor_fields(1), of 0 1] corridor_fields(1) corridor_neighbors(2)
  by simp

theorem solve_valid_witness:
  "maze_shape corridor \<and> start corridor = Some (0, 0) \<and> goal corridor = Some (0, 2)
   \<and> (0, 0) \<noteq> ((0, 2) :: cell) \<and> (0, 2) \<in> reachable corridor (0, 0)
   \<and> (\<exists>acts cells m'. solve corridor = (None, m') \<and> solution m' = Some (acts, cells)
           \<and> length acts = length cells \<and> route corridor (0, 0) (zip acts cells)
           \<and> cells \<noteq> [] \<and> hd cells \<in> snd ` set (neighbors corridor (0, 0)) \<and> hd cells \<noteq> (0, 0)
           \<and> last cells = (0, 2))
   \<and> solution (snd (solve corridor)) = Some ([Some ''right'', Some ''right''], [(0, 1), (0, 2)])"
  using solve_valid [OF corridor_fields _ corridor_reachable] corridor_fields corridor_reachable
  by (simp add: solve_corridor)

theorem solve_unsolvable_witness:
  "maze_shape blocked \<and> start blocked = Some (0, 0) \<and> goal blocked = Some (0, 2)
   \<and> (0, 2) \<notin> reachable blocked (0, 0)
   \<and> fst (solve blocked) = Some NoSolution
   \<and> num_explored (snd (solve blocked)) = card (reachable blocked (0, 0))
   \<and> explored (snd (solve blocked)) = reachable blocked (0, 0)
   \<and> num_explored (snd (solve blocked)) = 1"
proof -
  have u: "(0, 2) \<notin> reachable blocked (0, 0)" by (simp add: blocked_reachable)
  show ?thesis
    using solve_unsolvable [OF blocked_fields u] blocked_fields u
    by (simp add: solve_blocked)
qed

subsection \<open>Each state is in the frontier once\<close>

lemma removals_distinct:
  "search_inv m0 s g fr m \<Longrightarrow>
     distinct (removals n fr m) \<and> set (removals n fr m) \<inter> explored m = {}"
proof (induction n arbitrary: fr m)
  case 0
  show ?case by simp
next
  case (Suc n)
  show ?case
  proof (cases "frontier_remove fr")
    case (Inl e)
    then show ?thesis by simp
  next
    case (Inr x)
    obtain node fr1 where x: "x = (node, fr1)" by (cases x)
    have rm: "frontier_remove fr = Inr (node, fr1)" using Inr x by simp
    have "state node \<in> states fr"
      using frontier_remove_Inr(1)[OF rm] by (simp add: states_def)
    then have fresh_node: "state node \<notin> explored m"
      using Suc.prems by (auto simp: search_inv_def)
    show ?thesis
    proof (cases "iteration fr m")
      case (Inl r)
      then show ?thesis using rm fresh_node by simp
    next
      case it: (Inr y)
      obtain fr' m' where y: "y = (fr', m')" by (cases y)
      have it': "iteration fr m = Inr (fr', m')" using it y by simp
      have ex: "explored m' = insert (state node) (explored m)"
        using it' by (rule iteration_Inr) (use rm in simp)
      have "search_inv m0 s g fr' m'" using search_inv_step[OF Suc.prems it'] .
      from Suc.IH[OF this] have ih: "distinct (removals n fr' m')"
        "set (removals n fr' m') \<inter> explored m' = {}" by simp_all
      have "removals (Suc n) fr m = state node # removals n fr' m'"
        using rm it' by simp
      then show ?thesis using ih fresh_node by (auto simp: ex)
    qed
  qed
qed

lemma search_states_inv:
  assumes "start m = Some s" "goal m = Some g" "nodes fr0 = []"
    and "search_states fr0 n m = Some (fr, m')"
  shows "search_inv m s g fr m'"
proof (rule loop_state_rule[where I = "search_inv m s g"])
  show "search_inv m s g (frontier_add fr0 (Node s None None)) (m\<lparr>num_explored := 0, explored := {}\<rparr>)"
    using search_inv_init[OF assms(2,3)] .
  show "\<And>fr m1 fr' m'. search_inv m s g fr m1 \<Longrightarrow> iteration fr m1 = Inr (fr', m') \<Longrightarrow> search_inv m s g fr' m'"
    by (rule search_inv_step)
  show "loop_state n (frontier_add fr0 (Node s None None)) (m\<lparr>num_explored := 0, explored := {}\<rparr>) = Some (fr, m')"
    using assms(1,4) by (simp add: search_states_def)
qed

text \<open>
  Claim C6. At the head of the loop of \<open>solve\<close>, before the first pass and after every
  pass, no two nodes of the frontier have the same state and no state of the frontier is
  in the explored set; and the states that the passes remove from the frontier, listed
  in order, are pairwise different: no state is removed twice.
\<close>

theorem frontier_states_once:
  assumes "maze_shape m" and "goal m = Some g"
    and "search_states (StackFrontier []) n m = Some (fr, m')"
  shows "distinct (map state (nodes fr)) \<and> states fr \<inter> explored m' = {}
       \<and> distinct (search_removals (StackFrontier []) k m)"
proof -
  from assms(3) obtain s where s: "start m = Some s"
    by (cases "start m") (simp_all add: search_states_def)
  have e: "nodes (StackFrontier []) = []" by simp
  have inv: "search_inv m s g fr m'" using search_states_inv[OF s assms(2) e assms(3)] .
  have "distinct (removals k (frontier_add (StackFrontier []) (Node s None None))
                    (m\<lparr>num_explored := 0, explored := {}\<rparr>))"
    using removals_distinct[OF search_inv_init[OF assms(2) e]] by simp
  then have "distinct (search_removals (StackFrontier []) k m)"
    using s by (simp add: search_removals_def)
  then show ?thesis using inv by (simp add: search_inv_def)
qed

subsection \<open>Termination\<close>

lemma loop_state_count:
  "loop_state n fr m = Some (fr', m') \<Longrightarrow> num_explored m' = num_explored m + n"
proof (induction n arbitrary: fr m)
  case 0
  then show ?case by simp
next
  case (Suc n)
  from Suc.prems obtain fr1 m1 where it: "iteration fr m = Inr (fr1, m1)"
    and ls: "loop_state n fr1 m1 = Some (fr', m')"
    by (auto split: sum.splits)
  have "num_explored m1 = num_explored m + 1" using it by (rule iteration_Inr) simp
  then show ?case using Suc.IH[OF ls] by simp
qed

lemma reachable_in_cells:
  assumes "in_bounds m s"
  shows "reachable m s \<subseteq> cells_of m"
proof (rule closed_reachable)
  show "s \<in> cells_of m" using assms by (cases s) (simp add: in_bounds_def cells_of_def)
  show "\<forall>c \<in> cells_of m. snd ` set (neighbors m c) \<subseteq> cells_of m"
    using neighbors_in_cells by fastforce
qed

lemma card_cells_of:
  assumes "in_bounds m s"
  shows "card (cells_of m) = nat (height m * width m)"
proof -
  have "0 \<le> height m" "0 \<le> width m" using assms by (simp_all add: in_bounds_def)
  then show ?thesis by (simp add: cells_of_def nat_mult_distrib)
qed

text \<open>
  \<open>solve_loop\<close> is a total function, so \<open>solve\<close> ends on every maze. On a maze whose start
  and goal are assigned and whose start lies within bounds, the loop is left after at most
  \<open>height * width\<close> completed passes (each of them has moved a new cell into the explored
  set), in the pass that follows, and \<open>solve\<close> then either raises \<^verbatim>\<open>no solution\<close> or returns
  with a solution recorded.
\<close>

lemma solve_terminates:
  assumes "maze_shape m" and "start m = Some s" and "goal m = Some g" and "in_bounds m s"
  shows "\<exists>n fr m'. n \<le> nat (height m * width m)
           \<and> search_states (StackFrontier []) n m = Some (fr, m')
           \<and> iteration fr m' = Inl (solve m)
           \<and> (fst (solve m) = Some NoSolution
               \<or> fst (solve m) = None \<and> solution (snd (solve m)) \<noteq> None)"
proof -
  let ?fr0 = "frontier_add (StackFrontier []) (Node s None None)"
  let ?m0 = "m\<lparr>num_explored := 0, explored := {}\<rparr>"
  have e: "nodes (StackFrontier []) = []" by simp
  have sv: "solve m = solve_loop ?fr0 ?m0"
    using solve_from_eq[OF assms(2)] by (simp add: solve_def)
  from loop_exits[of ?fr0 ?m0] obtain n fr m' where
    ls: "loop_state n ?fr0 ?m0 = Some (fr, m')" and it: "iteration fr m' = Inl (solve m)"
    using sv by auto
  have ss: "search_states (StackFrontier []) n m = Some (fr, m')"
    using ls assms(2) by (simp add: search_states_def)
  have inv: "search_inv m s g fr m'" using search_states_inv[OF assms(2,3) e ss] .
  have "num_explored m' = n" using loop_state_count[OF ls] by simp
  then have "n = card (explored m')" using inv by (simp add: search_inv_def)
  moreover have "explored m' \<subseteq> cells_of m"
    using inv reachable_in_cells[OF assms(4)] by (auto simp: search_inv_def)
  ultimately have "n \<le> card (cells_of m)"
    using card_mono[OF finite_cells_of] by simp
  then have bound: "n \<le> nat (height m * width m)" using card_cells_of[OF assms(4)] by simp
  have out: "fst (solve m) = Some NoSolution \<or> fst (solve m) = None \<and> solution (snd (solve m)) \<noteq> None"
    using solve_from_result[OF assms(2,3) e] by (auto simp: solve_def)
  show ?thesis using bound ss it out by blast
qed

subsection \<open>An open grid of three rows and three columns\<close>

text \<open>Start in the upper left corner, goal in the lower left corner, no wall.\<close>

definition open3 :: maze where
  "open3 = \<lparr>height = 3, width = 3,
      walls = [[False, False, False], [False, False, False], [False, False, False]],
      start = Some (0, 0), goal = Some (2, 0), solution = None, num_explored = 0, explored = {}\<rparr>"

lemma Maze_init_open3:
  "Maze_init [chr_A, chr_space, chr_space, 10, chr_space, chr_space, chr_space, 10,
              chr_B, chr_space, chr_space] = Inr open3"
  by (simp add: open3_def Maze_init_def splitlines_def line_boundary_def scan_row_def scan_cell_def)

lemma open3_fields:
  "maze_shape open3" "start open3 = Some (0, 0)" "goal open3 = Some (2, 0)"
  by (simp_all add: open3_def maze_shape_def)

lemma open3_states_2:
  "search_states (StackFrontier []) 2 open3 =
     Some (StackFrontier
            [Node (1, 0) (Some (Node (0, 0) None None)) (Some ''down''),
             Node (1, 1) (Some (Node (0, 1) (Some (Node (0, 0) None None)) (Some ''right'')))
               (Some ''down''),
             Node (0, 2) (Some (Node (0, 1) (Some (Node (0, 0) None None)) (Some ''right'')))
               (Some ''right'')],
           open3\<lparr>num_explored := 2, explored := {(0, 1), (0, 0)}\<rparr>)"
  by code_simp

lemma open3_removals:
  "search_removals (StackFrontier []) 10 open3 =
     [(0, 0), (0, 1), (0, 2), (1, 2), (2, 2), (2, 1), (2, 0)]"
  by code_simp

lemma solve_open3:
  "solve open3 =
     (None, open3\<lparr>solution := Some ([Some ''right'', Some ''right'', Some ''down'', Some ''down'',
                                      Some ''left'', Some ''left''],
                                     [(0, 1), (0, 2), (1, 2), (2, 2), (2, 1), (2, 0)]),
                   num_explored := 7,
                   explored := {(2, 1), (2, 2), (1, 2), (0, 2), (0, 1), (0, 0)}\<rparr>)"
  by code_simp

theorem frontier_states_once_witness:
  "maze_shape open3 \<and> goal open3 = Some (2, 0)
   \<and> search_states (StackFrontier []) 2 open3 =
       Some (StackFrontier
              [Node (1, 0) (Some (Node (0, 0) None None)) (Some ''down''),
               Node (1, 1) (Some (Node (0, 1) (Some (Node (0, 0) None None)) (Some ''right'')))
                 (Some ''down''),
               Node (0, 2) (Some (Node (0, 1) (Some (Node (0, 0) None None)) (Some ''right'')))
                 (Some ''right'')],
             open3\<lparr>num_explored := 2, explored := {(0, 1), (0, 0)}\<rparr>)
   \<and> distinct [(1, 0), (1, 1), (0, 2 :: int) :: cell]
   \<and> {(1, 0), (1, 1), (0, 2)} \<inter> {(0, 1), (0, 0 :: int) :: cell} = {}
   \<and> distinct (search_removals (StackFrontier []) 10 open3)
   \<and> search_removals (StackFrontier []) 10 open3 =
       [(0, 0), (0, 1), (0, 2), (1, 2), (2, 2), (2, 1), (2, 0)]"
  using frontier_states_once [OF open3_fields(1,3) open3_states_2, of 10] open3_fields
  by (simp add: open3_states_2 open3_removals states_def)

lemma corridor_in_bounds: "in_bounds corridor (0, 0)"
  by (simp add: in_bounds_def corridor_def)

lemma solve_terminates_corridor:
  "maze_shape corridor \<and> start corridor = Some (0, 0) \<and> goal corridor = Some (0, 2)
   \<and> in_bounds corridor (0, 0)
   \<and> (\<exists>n fr m'. n \<le> nat (height corridor * width corridor)
           \<and> search_states (StackFrontier []) n corridor = Some (fr, m')
           \<and> iteration fr m' = Inl (solve corridor)
           \<and> (fst (solve corridor) = Some NoSolution
               \<or> fst (solve corridor) = None \<and> solution (snd (solve corridor)) \<noteq> None))"
  using solve_terminates [OF corridor_fields corridor_in_bounds] corridor_fields corridor_in_bounds
  by simp

subsection \<open>A marker beyond the width of the first line\<close>

text \<open>
  The width of the grid is the length of the first line of the text, and the scan never
  reads a longer line beyond it. A marker that stands there is counted by the validation
  but never assigned. The text \<^verbatim>\<open>A\<close>, \<^verbatim>\<open>#B\<close> holds one \<^verbatim>\<open>A\<close> and one \<^verbatim>\<open>B\<close>; its maze has two
  rows of one cell and no goal.
\<close>

definition nogoal :: maze where
  "nogoal = \<lparr>height = 2, width = 1, walls = [[False], [True]],
      start = Some (0, 0), goal = None, solution = None, num_explored = 0, explored = {}\<rparr>"

text \<open>
  \<open>solve\<close> on a maze without start or without goal: reading the attribute raises
  \<^verbatim>\<open>AttributeError\<close>, before the loop for the start and in the first pass for the goal.
\<close>

lemma solve_start_unassigned:
  "start m = None \<Longrightarrow> solve m = (Some AttributeError, m\<lparr>num_explored := 0\<rparr>)"
  by (simp add: solve_def solve_from_def)

lemma solve_goal_unassigned:
  assumes "start m = Some s" and "goal m = None"
  shows "solve m = (Some AttributeError, m\<lparr>num_explored := 1, explored := {}\<rparr>)"
proof -
  let ?fr = "frontier_add (StackFrontier []) (Node s None None)"
  let ?m = "m\<lparr>num_explored := 0, explored := {}\<rparr>"
  have "iteration ?fr ?m = Inl (Some AttributeError, m\<lparr>num_explored := 1, explored := {}\<rparr>)"
    using assms(2) by (simp add: iteration_def frontier_empty_def StackFrontier_remove_def)
  then have "solve_loop ?fr ?m = (Some AttributeError, m\<lparr>num_explored := 1, explored := {}\<rparr>)"
    by (subst solve_loop.simps) simp
  then show ?thesis using solve_from_eq[OF assms(1)] by (simp add: solve_def)
qed

lemma Maze_init_nogoal: "Maze_init [chr_A, 10, 35, chr_B] = Inr nogoal"
  by (simp add: nogoal_def Maze_init_def splitlines_def line_boundary_def scan_row_def scan_cell_def)

text \<open>
  Claim C3. \<open>solve\<close> ends on every maze, but not always by recording a solution or by
  raising \<^verbatim>\<open>no solution\<close>: on the maze that construction returns for the text \<^verbatim>\<open>A\<close>, \<^verbatim>\<open>#B\<close>,
  which holds exactly one \<^verbatim>\<open>A\<close> and one \<^verbatim>\<open>B\<close>, it raises \<^verbatim>\<open>AttributeError\<close> in its first
  pass and records no solution.
\<close>

theorem solve_attribute_error:
  "count_list [chr_A, 10, 35, chr_B] chr_A = 1 \<and> count_list [chr_A, 10, 35, chr_B] chr_B = 1
   \<and> Maze_init [chr_A, 10, 35, chr_B] = Inr nogoal
   \<and> start nogoal = Some (0, 0) \<and> goal nogoal = None
   \<and> solve nogoal = (Some AttributeError, nogoal\<lparr>num_explored := 1, explored := {}\<rparr>)
   \<and> solution (snd (solve nogoal)) = None"
proof -
  have f: "start nogoal = Some (0, 0)" "goal nogoal = None" by (simp_all add: nogoal_def)
  have n: "solution nogoal = None" by (simp add: nogoal_def)
  show ?thesis
    using solve_goal_unassigned[OF f] f n Maze_init_nogoal by simp
qed

subsection \<open>Breadth-first search\<close>

text \<open>
  \<open>walk m c ds\<close>: the cells \<open>ds\<close> are visited in this order by moves that start at \<open>c\<close>.
  \<open>within m s k c\<close>: some \<open>k\<close> moves lead from \<open>s\<close> to \<open>c\<close>.
\<close>

fun walk :: "maze \<Rightarrow> cell \<Rightarrow> cell list \<Rightarrow> bool" where
  "walk m c [] = True"
| "walk m c (d # ds) = (d \<in> snd ` set (neighbors m c) \<and> walk m d ds)"

fun within :: "maze \<Rightarrow> cell \<Rightarrow> nat \<Rightarrow> cell \<Rightarrow> bool" where
  "within m s 0 c = (c = s)"
| "within m s (Suc k) c = (\<exists>p. within m s k p \<and> c \<in> snd ` set (neighbors m p))"

text \<open>
  What holds in addition at the head of the loop when the frontier is a queue: no walk
  to the state of a frontier node is shorter than the chain of the node; the depths in
  the queue increase, by at most one from the first node to any other; and every cell
  within as many moves of the start as the first node is deep is explored or in the
  frontier.
\<close>

definition bfs_inv :: "maze \<Rightarrow> cell \<Rightarrow> frontier \<Rightarrow> maze \<Rightarrow> bool" where
  "bfs_inv m0 s fr m \<longleftrightarrow>
     (\<exists>ns. fr = QueueFrontier ns) \<and>
     (\<forall>n \<in> set (nodes fr). \<forall>k. within m0 s k (state n) \<longrightarrow> depth n \<le> k) \<and>
     sorted (map depth (nodes fr)) \<and>
     (\<forall>n \<in> set (nodes fr). depth n \<le> Suc (depth (hd (nodes fr)))) \<and>
     (nodes fr \<noteq> [] \<longrightarrow>
        (\<forall>k c. k \<le> depth (hd (nodes fr)) \<and> within m0 s k c \<longrightarrow> c \<in> explored m \<union> states fr))"

lemma walk_append:
  "walk m c (ds @ [d]) \<longleftrightarrow> walk m c ds \<and> d \<in> snd ` set (neighbors m (last (c # ds)))"
  by (induction ds arbitrary: c) simp_all

lemma within_step:
  "within m s k p \<Longrightarrow> c \<in> snd ` set (neighbors m p) \<Longrightarrow> within m s (Suc k) c"
  unfolding within.simps by blast

lemma walk_within: "walk m s cs \<Longrightarrow> within m s (length cs) (last (s # cs))"
proof (induction cs rule: rev_induct)
  case Nil
  show ?case by simp
next
  case (snoc d ds)
  then have "walk m s ds" and d: "d \<in> snd ` set (neighbors m (last (s # ds)))"
    by (simp_all add: walk_append)
  then have "within m s (length ds) (last (s # ds))" using snoc.IH by simp
  then have "within m s (Suc (length ds)) d" using d by (rule within_step)
  moreover have "last (s # ds @ [d]) = d" by (metis append_Cons last_snoc)
  ultimately show ?case by simp
qed

lemma chain_ok_within: "chain_ok m s n \<Longrightarrow> within m s (depth n) (state n)"
proof (induction n rule: depth.induct)
  case (1 c a)
  then show ?case by simp
next
  case (2 c p a)
  then have ih: "within m s (depth p) (state p)" and mv: "move m (state p) (a, c)" by simp_all
  from mv obtain act where "(act, c) \<in> set (neighbors m (state p))"
    by (auto simp: move_def split: option.splits)
  then have "c \<in> snd ` set (neighbors m (state p))" by (rule image_eqI[rotated]) simp
  with ih have "within m s (Suc (depth p)) c" by (rule within_step)
  then show ?case by simp
qed

lemma depth_child: "depth (child node x) = Suc (depth node)"
  by (simp add: child_def)

lemma state_child: "state (child node x) = snd x"
  by (simp add: child_def)

lemma bfs_inv_init:
  "bfs_inv m s (frontier_add (QueueFrontier []) (Node s None None))
     (m\<lparr>num_explored := 0, explored := {}\<rparr>)"
proof -
  have "\<And>k c. k \<le> 0 \<Longrightarrow> within m s k c \<Longrightarrow> c = s" by simp
  then show ?thesis by (simp add: bfs_inv_def states_def)
qed

lemma bfs_inv_step:
  assumes inv: "search_inv m0 s g fr m" and bfs: "bfs_inv m0 s fr m"
    and it: "iteration fr m = Inr (fr', m')"
  shows "bfs_inv m0 s fr' m'"
proof -
  from it obtain node fr1 g' where
    rm: "frontier_remove fr = Inr (node, fr1)" and
    m': "m' = m\<lparr>num_explored := num_explored m + 1, explored := insert (state node) (explored m)\<rparr>" and
    fr': "fr' = fold (add_child m' node) (neighbors m' (state node)) fr1"
    by (rule iteration_Inr)
  have inv': "search_inv m0 s g fr' m'" using search_inv_step[OF inv it] .
  have grid: "height m = height m0" "width m = width m0" "walls m = walls m0"
    using inv by (simp_all add: search_inv_def)
  from bfs obtain ns where q: "fr = QueueFrontier ns" by (auto simp: bfs_inv_def)
  from frontier_remove_cases[OF rm] q
  have fr_eq: "fr = QueueFrontier (node # nodes fr1)" and fr1_eq: "fr1 = QueueFrontier (nodes fr1)"
    by auto
  let ?rest = "nodes fr1"
  let ?E = "explored m" and ?E' = "insert (state node) (explored m)"
  let ?nbs = "neighbors m0 (state node)"
  let ?new = "fresh (?E' \<union> states fr1) ?nbs"
  let ?k = "depth node"
  have nodes_fr: "nodes fr = node # ?rest" using fr_eq by (metis frontier.sel(2))
  have nb: "neighbors m' (state node) = ?nbs"
    by (rule neighbors_grid) (simp_all add: m' grid)
  have E': "explored m' = ?E'" by (simp add: m')
  have fold: "nodes fr' = ?rest @ map (child node) ?new" "same_class fr' fr1"
    using fold_add_child_nodes[of m' node ?nbs fr1] by (simp_all add: fr' nb E')
  have queue': "\<exists>ns. fr' = QueueFrontier ns"
    using fold(2) fr1_eq by (cases fr') (auto simp: same_class_def split: frontier.splits)
  have st_fr: "states fr = insert (state node) (states fr1)"
    by (simp add: states_def nodes_fr)
  have st_sub: "states fr1 \<subseteq> states fr'" by (auto simp: states_def fold(1))
  have old_sub: "?E \<union> states fr \<subseteq> explored m' \<union> states fr'"
    using st_sub by (auto simp: st_fr E')
  have B1: "\<forall>n \<in> set (nodes fr). \<forall>k. within m0 s k (state n) \<longrightarrow> depth n \<le> k"
    and B2: "sorted (map depth (nodes fr))"
    and B2': "\<forall>n \<in> set (nodes fr). depth n \<le> Suc (depth (hd (nodes fr)))"
    and B3: "\<forall>k c. k \<le> depth (hd (nodes fr)) \<and> within m0 s k c \<longrightarrow> c \<in> ?E \<union> states fr"
    using bfs nodes_fr by (simp_all add: bfs_inv_def)
  have rest_lo: "\<forall>n \<in> set ?rest. ?k \<le> depth n" using B2 by (simp add: nodes_fr)
  have rest_hi: "\<forall>n \<in> set ?rest. depth n \<le> Suc ?k" using B2' by (simp add: nodes_fr)
  have rest_sorted: "sorted (map depth ?rest)" using B2 by (simp add: nodes_fr)
  have hdn: "hd (nodes fr) = node" by (simp add: nodes_fr)
  have B3k: "\<And>j c. j \<le> ?k \<Longrightarrow> within m0 s j c \<Longrightarrow> c \<in> ?E \<union> states fr"
    using B3 unfolding hdn by blast
  have av: "snd ` set ?new \<inter> (?E' \<union> states fr1) = {}" by (rule fresh_avoids)
  have un: "?E \<union> states fr = ?E' \<union> states fr1" unfolding st_fr by blast
  have new_fresh: "snd x \<notin> ?E \<union> states fr" if "x \<in> set ?new" for x
  proof -
    from that have "snd x \<in> snd ` set ?new" by (rule imageI)
    then show ?thesis using av unfolding un by blast
  qed
  have lo: "\<forall>n \<in> set (nodes fr'). ?k \<le> depth n"
    using rest_lo by (auto simp: fold(1) depth_child)
  have hi: "\<forall>n \<in> set (nodes fr'). depth n \<le> Suc ?k"
    using rest_hi by (auto simp: fold(1) depth_child)
  have c1: "\<forall>n \<in> set (nodes fr'). \<forall>j. within m0 s j (state n) \<longrightarrow> depth n \<le> j"
  proof (intro ballI allI impI)
    fix n j assume n: "n \<in> set (nodes fr')" and w: "within m0 s j (state n)"
    from n consider "n \<in> set ?rest" | x where "x \<in> set ?new" "n = child node x"
      by (auto simp: fold(1))
    then show "depth n \<le> j"
    proof cases
      case 1
      then show ?thesis using B1 w by (simp add: nodes_fr)
    next
      case 2
      have "\<not> j \<le> ?k"
      proof
        assume "j \<le> ?k"
        then have "snd x \<in> ?E \<union> states fr" using B3k w 2 by (simp add: state_child)
        then show False using new_fresh[OF 2(1)] by simp
      qed
      then show ?thesis using 2 by (simp add: depth_child)
    qed
  qed
  have c2: "sorted (map depth (nodes fr'))"
    using rest_sorted rest_hi
    by (auto simp: fold(1) sorted_append depth_child comp_def map_replicate_const)
  have c3: "\<forall>n \<in> set (nodes fr'). depth n \<le> Suc (depth (hd (nodes fr')))"
  proof
    fix n assume n: "n \<in> set (nodes fr')"
    then have "nodes fr' \<noteq> []" by auto
    then have "hd (nodes fr') \<in> set (nodes fr')" by simp
    then have "?k \<le> depth (hd (nodes fr'))" using lo by blast
    moreover have "depth n \<le> Suc ?k" using hi n by blast
    ultimately show "depth n \<le> Suc (depth (hd (nodes fr')))" by simp
  qed
  have c4: "nodes fr' \<noteq> [] \<longrightarrow>
        (\<forall>j c. j \<le> depth (hd (nodes fr')) \<and> within m0 s j c \<longrightarrow> c \<in> explored m' \<union> states fr')"
  proof (intro impI allI)
    fix j c
    assume ne: "nodes fr' \<noteq> []" and a: "j \<le> depth (hd (nodes fr')) \<and> within m0 s j c"
    have hd_in: "hd (nodes fr') \<in> set (nodes fr')" using ne by simp
    have j_hi: "j \<le> Suc ?k" using a hi hd_in by fastforce
    show "c \<in> explored m' \<union> states fr'"
    proof (cases "j \<le> ?k")
      case True
      then have "c \<in> ?E \<union> states fr" using B3k a by blast
      then show ?thesis using old_sub by blast
    next
      case False
      then have j: "j = Suc ?k" using j_hi by simp
      then have hd_depth: "depth (hd (nodes fr')) = Suc ?k" using a hi hd_in by fastforce
      from a j have "within m0 s (Suc ?k) c" by simp
      then obtain p where p: "within m0 s ?k p" and cp: "c \<in> snd ` set (neighbors m0 p)"
        unfolding within.simps by blast
      have "p \<in> ?E \<union> states fr" using B3k[OF le_refl p] .
      moreover have "p \<notin> states fr1"
      proof
        assume "p \<in> states fr1"
        then obtain x where x: "x \<in> set ?rest" "state x = p" by (auto simp: states_def)
        then have dx: "depth x \<le> ?k" using B1 p by (simp add: nodes_fr)
        from x have rne: "?rest \<noteq> []" by auto
        then have "hd (nodes fr') = hd ?rest" by (simp add: fold(1))
        moreover have "depth (hd ?rest) \<le> depth x"
          using rest_sorted x(1) rne by (cases ?rest) auto
        ultimately show False using hd_depth dx by simp
      qed
      ultimately have "p \<in> explored m'" by (auto simp: st_fr E')
      then have "snd ` set (neighbors m0 p) \<subseteq> explored m' \<union> states fr'"
        using inv' by (simp add: search_inv_def)
      then show ?thesis using cp by blast
    qed
  qed
  show ?thesis unfolding bfs_inv_def using queue' c1 c2 c3 c4 by blast
qed

lemma queue_search_result:
  assumes "start m = Some s" "goal m = Some g"
  shows "(\<exists>m'. solve_from (QueueFrontier []) m = (Some NoSolution, m') \<and> g \<notin> reachable m s)
       \<or> (\<exists>node m'. solve_from (QueueFrontier []) m = (None, m') \<and> chain_ok m s node
            \<and> state node = g \<and> solution m' = Some (actions_to node, cells_to node)
            \<and> (\<forall>k. within m s k g \<longrightarrow> depth node \<le> k))"
    (is "?Q (solve_from (QueueFrontier []) m)")
proof -
  let ?I = "\<lambda>fr m'. search_inv m s g fr m' \<and> bfs_inv m s fr m'"
  let ?fr0 = "frontier_add (QueueFrontier []) (Node s None None)"
  let ?m0 = "m\<lparr>num_explored := 0, explored := {}\<rparr>"
  have e: "nodes (QueueFrontier []) = []" by simp
  have "?Q (solve_loop ?fr0 ?m0)"
  proof (rule solve_loop_rule[where I = ?I])
    show "?I ?fr0 ?m0" using search_inv_init[OF assms(2) e] bfs_inv_init by blast
  next
    fix fr m1 fr' m'
    assume "?I fr m1" "iteration fr m1 = Inr (fr', m')"
    then show "?I fr' m'" using search_inv_step bfs_inv_step by blast
  next
    fix fr m1 r
    assume a: "?I fr m1" "iteration fr m1 = Inl r"
    then have inv: "search_inv m s g fr m1" and bfs: "bfs_inv m s fr m1" by simp_all
    from search_inv_exit[OF inv a(2)] show "?Q r"
    proof
      assume "nodes fr = [] \<and> r = (Some NoSolution, m1) \<and> explored m1 = reachable m s \<and> g \<notin> reachable m s"
      then show ?thesis by blast
    next
      assume "\<exists>node. node \<in> set (nodes fr) \<and> chain_ok m s node \<and> state node = g
            \<and> r = (None, m1\<lparr>num_explored := num_explored m1 + 1,
                            solution := Some (actions_to node, cells_to node)\<rparr>)"
      then obtain node where n: "node \<in> set (nodes fr)" "chain_ok m s node" "state node = g"
        "r = (None, m1\<lparr>num_explored := num_explored m1 + 1,
                            solution := Some (actions_to node, cells_to node)\<rparr>)" by blast
      have "\<forall>k. within m s k (state node) \<longrightarrow> depth node \<le> k"
        using bfs n(1) unfolding bfs_inv_def by blast
      then have "\<exists>m'. r = (None, m') \<and> chain_ok m s node \<and> state node = g
            \<and> solution m' = Some (actions_to node, cells_to node)
            \<and> (\<forall>k. within m s k g \<longrightarrow> depth node \<le> k)"
        using n by simp
      then show ?thesis by blast
    qed
  qed
  then show ?thesis using solve_from_eq[OF assms(1)] by simp
qed

text \<open>
  Claim C1, as the code has it. \<open>solve\<close> takes no frontier discipline: it constructs a
  \<^verbatim>\<open>StackFrontier\<close>, and its solution can have more moves than necessary, as on the open
  grid above. The body of \<open>solve\<close> on a \<^verbatim>\<open>QueueFrontier\<close> instead, for every
  grid whose goal is reachable from its start, returns and records a solution that leads
  from the start to the goal by moves of \<open>neighbors\<close> and has no more moves than any walk
  from the start to the goal.
\<close>

theorem queue_search_shortest:
  assumes "maze_shape m" and "start m = Some s" and "goal m = Some g"
    and "g \<in> reachable m s"
  shows "\<exists>acts cells m'. solve_from (QueueFrontier []) m = (None, m')
           \<and> solution m' = Some (acts, cells)
           \<and> length acts = length cells \<and> route m s (zip acts cells) \<and> last (s # cells) = g
           \<and> (\<forall>cs. walk m s cs \<and> last (s # cs) = g \<longrightarrow> length acts \<le> length cs)"
proof -
  from queue_search_result[OF assms(2,3)] assms(4)
  obtain node m' where r: "solve_from (QueueFrontier []) m = (None, m')"
    and c: "chain_ok m s node" and sg: "state node = g"
    and sol: "solution m' = Some (actions_to node, cells_to node)"
    and least: "\<forall>k. within m s k g \<longrightarrow> depth node \<le> k"
    by blast
  have len: "length (actions_to node) = length (cells_to node)"
    by (simp add: length_actions_to length_cells_to)
  have rt: "route m s (zip (actions_to node) (cells_to node))"
    and l: "last (s # cells_to node) = g"
    using chain_ok_route[OF c] sg by simp_all
  have mn: "\<forall>cs. walk m s cs \<and> last (s # cs) = g \<longrightarrow> length (actions_to node) \<le> length cs"
  proof (intro allI impI)
    fix cs assume "walk m s cs \<and> last (s # cs) = g"
    then have "within m s (length cs) g" using walk_within[of m s cs] by simp
    then show "length (actions_to node) \<le> length cs"
      using least by (simp add: length_actions_to)
  qed
  have "solve_from (QueueFrontier []) m = (None, m')
           \<and> solution m' = Some (actions_to node, cells_to node)
           \<and> length (actions_to node) = length (cells_to node)
           \<and> route m s (zip (actions_to node) (cells_to node)) \<and> last (s # cells_to node) = g
           \<and> (\<forall>cs. walk m s cs \<and> last (s # cs) = g \<longrightarrow> length (actions_to node) \<le> length cs)"
    using r sol len rt l mn by blast
  then show ?thesis by (intro exI)
qed

lemma open3_neighbors:
  "neighbors open3 (0, 0) = [(''down'', (1, 0)), (''right'', (0, 1))]"
  "neighbors open3 (1, 0) = [(''up'', (0, 0)), (''down'', (2, 0)), (''right'', (1, 1))]"
  by (simp_all add: neighbors_filter in_bounds_def is_wall_def open3_def)

lemma open3_walk: "walk open3 (0, 0) [(1, 0), (2, 0)]"
  by (simp add: open3_neighbors)

lemma open3_reachable: "(2, 0) \<in> reachable open3 (0, 0)"
proof -
  have "(1, 0) \<in> reachable open3 (0, 0)"
    by (rule reachable_step[OF reachable_refl]) (simp add: open3_neighbors)
  then show ?thesis
    by (rule reachable_step) (simp add: open3_neighbors)
qed

lemma queue_search_open3:
  "solve_from (QueueFrontier []) open3 =
     (None, open3\<lparr>solution := Some ([Some ''down'', Some ''down''], [(1, 0), (2, 0)]),
                   num_explored := 4, explored := {(0, 1), (1, 0), (0, 0)}\<rparr>)"
  by code_simp

text \<open>
  On the open grid, \<open>solve\<close> goes around the border in six moves although two moves
  down lead from the start to the goal.
\<close>

theorem solve_not_shortest:
  "solution (snd (solve open3)) =
     Some ([Some ''right'', Some ''right'', Some ''down'', Some ''down'', Some ''left'', Some ''left''],
           [(0, 1), (0, 2), (1, 2), (2, 2), (2, 1), (2, 0)])
   \<and> start open3 = Some (0, 0) \<and> goal open3 = Some (2, 0)
   \<and> walk open3 (0, 0) [(1, 0), (2, 0)] \<and> last [(0, 0), (1, 0), (2, 0 :: int) :: cell] = (2, 0)
   \<and> \<not> length [Some ''right'', Some ''right'', Some ''down'', Some ''down'', Some ''left'',
                 Some ''left''] \<le> length [(1, 0), (2, 0 :: int) :: cell]"
  using open3_walk open3_fields(2,3) by (simp add: solve_open3)

theorem queue_search_shortest_witness:
  "maze_shape open3 \<and> start open3 = Some (0, 0) \<and> goal open3 = Some (2, 0)
   \<and> (2, 0) \<in> reachable open3 (0, 0)
   \<and> (\<exists>acts cells m'. solve_from (QueueFrontier []) open3 = (None, m')
           \<and> solution m' = Some (acts, cells)
           \<and> length acts = length cells \<and> route open3 (0, 0) (zip acts cells)
           \<and> last ((0, 0) # cells) = (2, 0)
           \<and> (\<forall>cs. walk open3 (0, 0) cs \<and> last ((0, 0) # cs) = (2, 0) \<longrightarrow> length acts \<le> length cs))
   \<and> solution (snd (solve_from (QueueFrontier []) open3)) =
        Some ([Some ''down'', Some ''down''], [(1, 0), (2, 0)])"
  using queue_search_shortest [OF open3_fields open3_reachable] open3_fields open3_reachable
  by (simp add: queue_search_open3)

end
